theory Spec2Isabelle
  imports Complex_Main
begin

section \<open>The compound elementwise kernel engine of nervanagpu (float_ew.py)\<close>

text \<open>
  A shallow embedding of the expression builder (\<open>_build_tree\<close>), of the synthetic 2-D
  decomposition (\<open>_get_fast_ew_dims\<close>) and of the call driver (\<open>call_compound_kernel\<close>)
  of \<open>third_party/nervanagpu/nervanagpu/float_ew.py\<close>. Python exceptions are values of
  the type \<open>error\<close>; a function that can raise returns \<open>error + 'a\<close>.
\<close>

subsection \<open>Exceptions\<close>

datatype error =
    IndexError                    \<comment> \<open>\<open>pop\<close> from an empty list, index out of range\<close>
  | ZeroDivisionError
  | KeyError
  | NameError                     \<comment> \<open>a local variable read before it is bound\<close>
  | AttributeError                \<comment> \<open>an attribute of \<open>None\<close>\<close>
  | ValueError_axis               \<comment> \<open>"Only reduction along an axis currently supported"\<close>
  | ValueError_one_axis           \<comment> \<open>"Reduction only allowed along one axis per kernel."\<close>
  | ValueError_2d                 \<comment> \<open>"Operations that are not simple elementwise are only
                                       currently supported in 2 dimensions."\<close>
  | ValueError_bad_op             \<comment> \<open>"Bad op type."\<close>
  | TypeError_shape "int \<times> int"   \<comment> \<open>"Input shape:%s not compatible"\<close>
  | TypeError_op string           \<comment> \<open>"%s is not a valid operation"\<close>
  | TypeError_arg                 \<comment> \<open>"args must be instance of GPUTensor, int, float, or dict"\<close>
  | CompileError                  \<comment> \<open>the device compiler refused the source\<close>

subsection \<open>\<open>_get_fast_ew_dims\<close>\<close>

text \<open>
  The first loop, \<open>while ew_size > 0: if size % ew_size == 0: break; ew_size -= 32\<close>,
  and the second one, the same with step 1. Python's \<open>%\<close> and \<open>//\<close> on integers round
  towards minus infinity, as \<open>mod\<close> and \<open>div\<close> on \<open>int\<close> do.
\<close>

function scan32 :: "int \<Rightarrow> int \<Rightarrow> int" where
  "scan32 sz ew_size =
     (if ew_size > 0 then
        (if sz mod ew_size = 0 then ew_size else scan32 sz (ew_size - 32))
      else ew_size)"
  by pat_completeness auto
termination
  by (relation "measure (\<lambda>(sz, ew_size). nat ew_size)") auto

function scan1 :: "int \<Rightarrow> int \<Rightarrow> int" where
  "scan1 sz ew_size =
     (if ew_size > 0 then
        (if sz mod ew_size = 0 then ew_size else scan1 sz (ew_size - 1))
      else ew_size)"
  by pat_completeness auto
termination
  by (relation "measure (\<lambda>(sz, ew_size). nat ew_size)") auto

declare scan32.simps [simp del] scan1.simps [simp del]

definition fast_ew_size :: "int \<Rightarrow> int" where
  "fast_ew_size sz =
     (let ew_size = scan32 sz 256 in
      if ew_size = 0 then scan1 sz 255 else ew_size)"

text \<open>
  \<open>ng._contiguous_strides\<close> lives in another module; it is a parameter of the model.
  \<open>size // ew_size\<close> raises when \<open>ew_size\<close> is 0.
\<close>

definition get_fast_ew_dims ::
  "(int \<times> int \<Rightarrow> int \<times> int) \<Rightarrow> int \<Rightarrow> error + ((int \<times> int) \<times> (int \<times> int))" where
  "get_fast_ew_dims contiguous_strides sz =
     (let ew_size = fast_ew_size sz in
      if ew_size = 0 then Inl ZeroDivisionError
      else (let shp = (sz div ew_size, ew_size)
            in Inr (shp, contiguous_strides shp)))"

subsection \<open>The kernel signature: \<open>type_args\<close>\<close>

text \<open>
  An element of \<open>type_args\<close> is a tuple: \<open>(ng.GPUTensor, indx, dtype, take_axis)\<close> for a
  tensor, \<open>(float, indx)\<close> for a constant, and for an operation \<open>(op_name, op_cnt)\<close>,
  \<open>(op_name, op_cnt, hot_axis)\<close> (onehot) or \<open>(op_name, op_cnt, rounding > 0, threads)\<close>
  (assign). Argument indices and operation counters are counters that start at 0.
\<close>

datatype op_extra = NoExtra | HotAxis int | Rounding bool int

datatype type_arg =
    TensorArg nat string int
  | FloatArg nat
  | OpArg string nat op_extra

text \<open>\<open>arg[0]\<close>: the class \<open>ng.GPUTensor\<close>, the class \<open>float\<close>, or an operation's name.\<close>

datatype arg_kind = GPUTensor_class | float_class | op_name string

fun arg_type :: "type_arg \<Rightarrow> arg_kind" where
  "arg_type (TensorArg indx dt take_axis) = GPUTensor_class"
| "arg_type (FloatArg indx) = float_class"
| "arg_type (OpArg name cnt extra) = op_name name"

text \<open>\<open>arg[1]\<close>.\<close>

fun arg_id :: "type_arg \<Rightarrow> nat" where
  "arg_id (TensorArg indx dt take_axis) = indx"
| "arg_id (FloatArg indx) = indx"
| "arg_id (OpArg name cnt extra) = cnt"

text \<open>The number of operands of each entry of \<open>_float_ops\<close> (its code template is left out).\<close>

definition float_ops :: "string \<rightharpoonup> nat" where
  "float_ops = map_of
     [(''assign'', 2), (''add'', 2), (''sub'', 2), (''mul'', 2), (''div'', 2), (''eq'', 2),
      (''ne'', 2), (''lt'', 2), (''le'', 2), (''gt'', 2), (''ge'', 2), (''minimum'', 2),
      (''maximum'', 2), (''pow'', 2), (''finite'', 1), (''neg'', 1), (''abs'', 1),
      (''sgn'', 1), (''sqrt'', 1), (''sqr'', 1), (''exp'', 1), (''log'', 1), (''exp2'', 1),
      (''log2'', 1), (''sig'', 1), (''sig2'', 1), (''tanh'', 1), (''tanh2'', 1),
      (''rand'', 0), (''onehot'', 0)]"

text \<open>The keys of \<open>_reduction_ops\<close>.\<close>

definition reduction_ops :: "string list" where
  "reduction_ops = [''sum'', ''max'', ''min'', ''argmax'', ''argmin'']"

subsection \<open>\<open>_build_tree\<close>\<close>

text \<open>
  The tree is built from mutable Python lists \<open>[arg, is_scalar, red_count, child, child]\<close>,
  which \<open>_split_stages\<close> later changes in place through references it keeps in a list of
  parents. The model therefore has a store: a node is a record in a list of nodes and is
  referred to by its index there. An entry of the operand stack, and a child of a node, is
  either an argument tuple (\<open>Arg\<close>) or such a list (\<open>Ref\<close>, what \<open>type(operand) is list\<close>
  tests).
\<close>

datatype operand = Arg type_arg | Ref nat

record node =
  n_arg :: type_arg           \<comment> \<open>\<open>node[0]\<close>\<close>
  n_scalar :: bool            \<comment> \<open>\<open>node[1]\<close>\<close>
  n_red :: int                \<comment> \<open>\<open>node[2]\<close>\<close>
  n_kids :: "operand list"    \<comment> \<open>\<open>node[3:]\<close>\<close>

type_synonym heap = "node list"

text \<open>
  One round of \<open>for i in range(numops)\<close> after \<open>operand = stack.pop()\<close>:
  the reduction count and the scalar flag are updated, and \<open>node.insert(3, operand)\<close>
  puts the operand in front of the children.
\<close>

definition add_operand :: "heap \<Rightarrow> node \<Rightarrow> operand \<Rightarrow> node" where
  "add_operand h nd operand =
     (let nd1 = (case operand of
                   Ref a \<Rightarrow>
                     (let nd0 = nd\<lparr>n_red := n_red nd + n_red (h ! a)\<rparr>
                      in if \<not> n_scalar (h ! a) then nd0\<lparr>n_scalar := False\<rparr> else nd0)
                 | Arg x \<Rightarrow>
                     (if arg_type x = GPUTensor_class \<and> arg_id x > 0
                      then nd\<lparr>n_scalar := False\<rparr> else nd))
      in nd1\<lparr>n_kids := operand # n_kids nd1\<rparr>)"

text \<open>The operand stack has its top at the head of the list; \<open>pop\<close> on \<open>[]\<close> raises.\<close>

fun pop_operands :: "nat \<Rightarrow> heap \<Rightarrow> node \<Rightarrow> operand list \<Rightarrow> error + (node \<times> operand list)" where
  "pop_operands 0 h nd stack = Inr (nd, stack)"
| "pop_operands (Suc i) h nd [] = Inl IndexError"
| "pop_operands (Suc i) h nd (operand # stack) =
     pop_operands i h (add_operand h nd operand) stack"

definition build_step :: "type_arg \<Rightarrow> heap \<times> operand list \<Rightarrow> error + (heap \<times> operand list)" where
  "build_step arg hs =
     (case hs of (h, stack) \<Rightarrow>
       (case arg_type arg of
          op_name name \<Rightarrow>
            (case float_ops name of
               Some numops \<Rightarrow>
                 (case pop_operands numops h
                         \<lparr>n_arg = arg, n_scalar = (numops > 0), n_red = 0, n_kids = []\<rparr> stack of
                    Inl e \<Rightarrow> Inl e
                  | Inr (nd, stack') \<Rightarrow> Inr (h @ [nd], Ref (length h) # stack'))
             | None \<Rightarrow>
                 if name \<in> set reduction_ops then
                   (case stack of
                      [] \<Rightarrow> Inl IndexError
                    | operand # stack' \<Rightarrow>
                        (let reds = 1 + (case operand of Ref a \<Rightarrow> n_red (h ! a) | Arg x \<Rightarrow> 0)
                         in Inr (h @ [\<lparr>n_arg = arg, n_scalar = True, n_red = reds,
                                        n_kids = [operand]\<rparr>],
                                 Ref (length h) # stack')))
                 else Inr (h, Arg arg # stack))
        | _ \<Rightarrow> Inr (h, Arg arg # stack)))"

fun build_loop :: "type_arg list \<Rightarrow> heap \<times> operand list \<Rightarrow> error + (heap \<times> operand list)" where
  "build_loop [] hs = Inr hs"
| "build_loop (arg # args) hs =
     (case build_step arg hs of Inl e \<Rightarrow> Inl e | Inr hs' \<Rightarrow> build_loop args hs')"

text \<open>\<open>return stack[0]\<close>: the bottom of the stack, whatever lies above it.\<close>

definition build_tree :: "type_arg list \<Rightarrow> error + (heap \<times> operand)" where
  "build_tree type_args =
     (case build_loop type_args ([], []) of
        Inl e \<Rightarrow> Inl e
      | Inr (h, stack) \<Rightarrow> (if stack = [] then Inl IndexError else Inr (h, last stack)))"

subsection \<open>\<open>_post_order\<close>, \<open>_process_node\<close> and \<open>_split_stages\<close>\<close>

text \<open>
  \<open>_post_order\<close> recurses through the references of the store, so it is a partial
  function: \<open>None\<close> stands for a recursion that does not return. Only the first two
  children (\<open>node[3]\<close>, \<open>node[4]\<close>) are visited. A stage's stack is kept in the order of
  the Python list.
\<close>

partial_function (option) post_order :: "heap \<Rightarrow> operand \<Rightarrow> type_arg list \<Rightarrow> type_arg list option" where
  "post_order h node stack =
     (case node of
        Arg x \<Rightarrow> Some (stack @ [x])
      | Ref a \<Rightarrow>
          Option.bind
            (case n_kids (h ! a) of [] \<Rightarrow> Some stack | c1 # cs \<Rightarrow> post_order h c1 stack)
            (\<lambda>stack1. Option.bind
               (case n_kids (h ! a) of
                  c1 # c2 # cs \<Rightarrow> post_order h c2 stack1
                | _ \<Rightarrow> Some stack1)
               (\<lambda>stack2. Some (stack2 @ [n_arg (h ! a)]))))"

declare post_order.simps [code]

text \<open>
  An element of the key of \<open>_process_node\<close>: \<open>item[0]\<close>, the name of an operation that is
  not an alias, or \<open>item[0:2]\<close>.
\<close>

datatype key_item = KName string | KPair arg_kind nat

definition key_of_item :: "type_arg set \<Rightarrow> type_arg \<Rightarrow> key_item" where
  "key_of_item aliases item =
     (case arg_type item of
        op_name name \<Rightarrow>
          if item \<notin> aliases then KName name else KPair (arg_type item) (arg_id item)
      | _ \<Rightarrow> KPair (arg_type item) (arg_id item))"

text \<open>
  The state of the stage splitter: the store, the dictionary \<open>duplicates\<close>, the set
  \<open>aliases\<close>, the list \<open>stages\<close> and the list \<open>parents\<close> (of references to nodes).
\<close>

record split_state =
  heap_of :: heap
  duplicates :: "key_item list \<rightharpoonup> type_arg"
  aliases :: "type_arg set"
  stages :: "(string \<times> type_arg list) list"
  parents :: "nat list"

text \<open>
  \<open>_process_node\<close> returns the stack of the new stage, or \<open>None\<close> for a duplicate, whose
  \<open>node[0]\<close> becomes the registered node of the first occurrence; in both cases the children
  are dropped.
\<close>

definition process_node :: "nat \<Rightarrow> split_state \<Rightarrow> (type_arg list option \<times> split_state) option" where
  "process_node a st =
     Option.bind (post_order (heap_of st) (Ref a) []) (\<lambda>stack.
       let key = map (key_of_item (aliases st)) stack in
       (case duplicates st key of
          Some dup_node \<Rightarrow>
            Some (None,
                  st\<lparr>heap_of := (heap_of st)[a := (heap_of st ! a)\<lparr>n_arg := dup_node, n_kids := []\<rparr>]\<rparr>)
        | None \<Rightarrow>
            Some (Some stack,
                  st\<lparr>duplicates := (duplicates st)(key \<mapsto> last stack),
                     aliases := insert (last stack) (aliases st),
                     heap_of := (heap_of st)[a := (heap_of st ! a)\<lparr>n_kids := []\<rparr>]\<rparr>)))"

text \<open>\<open>for parent in parents: parent[2] -= 1\<close>.\<close>

fun dec_parents :: "nat list \<Rightarrow> heap \<Rightarrow> heap" where
  "dec_parents [] h = h"
| "dec_parents (p # ps) h = dec_parents ps (h[p := (h ! p)\<lparr>n_red := n_red (h ! p) - 1\<rparr>])"

text \<open>
  The walk up \<open>parents[::-1]\<close>: the highest parent reached while each one is scalar with
  no reduction left beneath it.
\<close>

fun find_scalar_parent :: "heap \<Rightarrow> nat list \<Rightarrow> nat option \<Rightarrow> nat option" where
  "find_scalar_parent h [] scalar_parent = scalar_parent"
| "find_scalar_parent h (p # ps) scalar_parent =
     (if n_scalar (h ! p) \<and> n_red (h ! p) = 0 then find_scalar_parent h ps (Some p)
      else scalar_parent)"

definition is_reduction :: "type_arg \<Rightarrow> bool" where
  "is_reduction arg = (case arg_type arg of op_name name \<Rightarrow> name \<in> set reduction_ops | _ \<Rightarrow> False)"

definition add_stage :: "string \<Rightarrow> type_arg list option \<Rightarrow> split_state \<Rightarrow> split_state" where
  "add_stage kind stack st =
     (case stack of Some s \<Rightarrow> st\<lparr>stages := stages st @ [(kind, s)]\<rparr> | None \<Rightarrow> st)"

text \<open>The part of \<open>_split_stages\<close> that follows the traversal of the children.\<close>

definition after_children :: "nat \<Rightarrow> split_state \<Rightarrow> split_state option" where
  "after_children a st3 =
     (let st4 = (if parents st3 \<noteq> [] then st3\<lparr>parents := butlast (parents st3)\<rparr> else st3) in
      if is_reduction (n_arg (heap_of st4 ! a)) then
        Option.bind (process_node a st4) (\<lambda>(red_stack, st5).
          let st6 = add_stage ''reduction'' red_stack st5;
              st7 = st6\<lparr>heap_of := dec_parents (parents st6) (heap_of st6)\<rparr>
          in (case find_scalar_parent (heap_of st7) (rev (parents st7)) None of
                None \<Rightarrow> Some st7
              | Some scalar_parent \<Rightarrow>
                  Option.bind (process_node scalar_parent st7) (\<lambda>(scalar_stack, st8).
                    Some (add_stage ''scalar'' scalar_stack st8))))
      else Some st4)"

partial_function (option) split_stages :: "operand \<Rightarrow> split_state \<Rightarrow> split_state option" where
  "split_stages node st =
     (case node of
        Arg x \<Rightarrow> Some st
      | Ref a \<Rightarrow>
          (let st1 = (if arg_type (n_arg (heap_of st ! a)) \<noteq> op_name ''assign''
                      then st\<lparr>parents := parents st @ [a]\<rparr> else st) in
           Option.bind
             (case n_kids (heap_of st1 ! a) of
                [] \<Rightarrow> Some st1
              | c1 # cs \<Rightarrow> split_stages c1 st1)
             (\<lambda>st2. Option.bind
                (case n_kids (heap_of st2 ! a) of
                   c1 # c2 # cs \<Rightarrow> split_stages c2 st2
                 | _ \<Rightarrow> Some st2)
                (after_children a))))"

declare split_stages.simps [code]

text \<open>The first call, with the data structures initialised.\<close>

definition init_state :: "heap \<Rightarrow> split_state" where
  "init_state h =
     \<lparr>heap_of = h, duplicates = Map.empty, aliases = {}, stages = [], parents = []\<rparr>"

subsection \<open>\<open>_get_compound_kernel\<close>: the positional signature of the kernel\<close>

text \<open>
  Of the code generator the model keeps what decides the prepared signature \<open>sig\<close> and the
  exceptions: the register stack (\<open>stack\<close>, here \<open>reg_stack\<close>), \<open>stage_out_reg\<close>, \<open>arg_dict\<close> (its signature part),
  \<open>array_ids\<close> and the output's dtype and take mode. The text of the templates is left
  out. A register name is \<open>"a%d"\<close>, \<open>"c%d"\<close>, \<open>"r%d"\<close> or \<open>"i%d"\<close>; a character of the
  signature is \<open>P\<close>, \<open>i\<close> or \<open>f\<close>.
\<close>

datatype reg = Reg_a nat | Reg_c nat | Reg_r nat | Reg_i nat

datatype sig_char = Sig_P | Sig_i | Sig_f

record gen_state =
  reg_stack :: "reg list"
  stage_out_reg :: "type_arg \<rightharpoonup> reg"
  arg_dict :: "type_arg \<rightharpoonup> sig_char list"
  array_ids :: "(nat + nat \<times> nat) set"
  out_dtype :: "string option"
  out_take :: "int option"

text \<open>The keys of \<open>_ew_types\<close>.\<close>

definition ew_types :: "string list" where
  "ew_types = [''f4'', ''f2'', ''i4'', ''u4'', ''i2'', ''u2'', ''i1'', ''u1'']"

text \<open>\<open>_ew_strings\<close> has the keys \<open>in0\<close>, \<open>in1\<close>, \<open>in2\<close> and \<open>out0\<close>, \<open>out1\<close>, \<open>out2\<close>.\<close>

definition take_key_ok :: "int \<Rightarrow> bool" where
  "take_key_ok take_axis \<longleftrightarrow> take_axis = 0 \<or> take_axis = 1 \<or> take_axis = 2"

text \<open>
  The placeholders \<open>loads%d\<close> exist for the stages \<open>reduction\<close> and \<open>ew_out\<close>, and
  \<open>shfl_red%d\<close> for \<open>reduction\<close>.
\<close>

definition has_loads :: "string \<Rightarrow> bool" where
  "has_loads stage_type \<longleftrightarrow> stage_type = ''reduction'' \<or> (stage_type \<noteq> ''scalar'' \<and> stage_type \<noteq> ''red_out'')"

fun pop_regs :: "nat \<Rightarrow> reg list \<Rightarrow> error + reg list" where
  "pop_regs 0 st = Inr st"
| "pop_regs (Suc n) [] = Inl IndexError"
| "pop_regs (Suc n) (r # st) = pop_regs n st"

text \<open>
  One argument of a stage's stack. \<open>is_out\<close> is \<open>stage == len(stages)-1 and arg_i == 0\<close>,
  \<open>is_last\<close> is \<open>arg_i == len(stage_stack)-1\<close>.
\<close>

definition gen_tensor ::
  "nat \<Rightarrow> string \<Rightarrow> bool \<Rightarrow> type_arg \<Rightarrow> nat \<Rightarrow> string \<Rightarrow> int \<Rightarrow> gen_state \<Rightarrow> error + gen_state" where
  "gen_tensor stage stage_type is_out arg indx dt take_axis g =
     (let g1 = (if is_out then g\<lparr>out_dtype := Some dt, out_take := Some take_axis\<rparr>
                else g\<lparr>reg_stack := Reg_a indx # reg_stack g\<rparr>) in
      if dt \<notin> set ew_types then Inl KeyError
      else if Inl indx \<notin> array_ids g1 then
        (let g2 = g1\<lparr>array_ids := insert (Inr (indx, stage)) (insert (Inl indx) (array_ids g1))\<rparr>;
             sg = [Sig_P, Sig_i, Sig_i] @ (if take_axis > 0 then [Sig_P] else [])
         in if \<not> take_key_ok take_axis then Inl KeyError
            else if \<not> is_out \<and> \<not> has_loads stage_type then Inl KeyError
            else Inr (g2\<lparr>arg_dict := (arg_dict g2)(arg \<mapsto> sg)\<rparr>))
      else if Inr (indx, stage) \<notin> array_ids g1 then
        (if \<not> take_key_ok take_axis \<or> \<not> has_loads stage_type then Inl KeyError
         else Inr (g1\<lparr>array_ids := insert (Inr (indx, stage)) (array_ids g1)\<rparr>))
      else Inr g1)"

definition gen_assign :: "type_arg \<Rightarrow> op_extra \<Rightarrow> gen_state \<Rightarrow> error + gen_state" where
  "gen_assign arg extra g =
     (case extra of
        NoExtra \<Rightarrow> Inl IndexError
      | _ \<Rightarrow>
        (let rnd = (case extra of Rounding b t \<Rightarrow> b | HotAxis x \<Rightarrow> x \<noteq> 0 | NoExtra \<Rightarrow> False);
             sg = [Sig_i] @ (if rnd then [Sig_i] else []);
             g1 = g\<lparr>arg_dict := (arg_dict g)(arg \<mapsto> sg)\<rparr>
         in (case reg_stack g1 of
               [] \<Rightarrow> Inl IndexError
             | out_val # rest \<Rightarrow>
                 (case (out_dtype g1, out_take g1) of
                    (Some dt, Some tk) \<Rightarrow>
                      if take_key_ok tk then Inr (g1\<lparr>reg_stack := rest\<rparr>) else Inl KeyError
                  | _ \<Rightarrow> Inl NameError))))"

definition gen_float_op ::
  "string \<Rightarrow> bool \<Rightarrow> type_arg \<Rightarrow> string \<Rightarrow> nat \<Rightarrow> op_extra \<Rightarrow> nat \<Rightarrow> gen_state \<Rightarrow> error + gen_state" where
  "gen_float_op stage_type is_last arg name cnt extra num_ops g =
     (case pop_regs num_ops (reg_stack g) of
        Inl e \<Rightarrow> Inl e
      | Inr rest \<Rightarrow>
          (let g1 = g\<lparr>reg_stack := rest\<rparr>;
               r = (if name = ''onehot'' then
                      (case extra of
                         HotAxis hot_axis \<Rightarrow>
                           if (hot_axis = 0 \<or> hot_axis = 1) \<and> has_loads stage_type
                           then Inr (g1\<lparr>arg_dict := (arg_dict g1)(arg \<mapsto> [Sig_P])\<rparr>)
                           else Inl KeyError
                       | Rounding b t \<Rightarrow> Inl KeyError
                       | NoExtra \<Rightarrow> Inl IndexError)
                    else Inr g1)
           in (case r of
                 Inl e \<Rightarrow> Inl e
               | Inr g2 \<Rightarrow>
                   if is_last then Inr (g2\<lparr>stage_out_reg := (stage_out_reg g2)(arg \<mapsto> Reg_r cnt)\<rparr>)
                   else Inr (g2\<lparr>reg_stack := Reg_r cnt # reg_stack g2\<rparr>))))"

definition gen_reduction ::
  "int \<Rightarrow> string \<Rightarrow> type_arg \<Rightarrow> string \<Rightarrow> nat \<Rightarrow> gen_state \<Rightarrow> error + gen_state" where
  "gen_reduction threads stage_type arg name cnt g =
     (let g1 = g\<lparr>arg_dict := (arg_dict g)(arg \<mapsto> [Sig_i])\<rparr>;
          red_arg = (if take 3 name = ''arg'' then Reg_i cnt else Reg_r cnt)
      in (case reg_stack g1 of
            [] \<Rightarrow> Inl IndexError
          | stack_arg # rest \<Rightarrow>
              if stage_type \<noteq> ''reduction'' then Inl KeyError
              else if threads > 32 \<and> (name = ''argmax'' \<or> name = ''argmin'') then Inl KeyError
              else Inr (g1\<lparr>reg_stack := rest,
                           stage_out_reg := (stage_out_reg g1)(arg \<mapsto> red_arg)\<rparr>)))"

definition gen_arg ::
  "int \<Rightarrow> nat \<Rightarrow> string \<Rightarrow> bool \<Rightarrow> bool \<Rightarrow> type_arg \<Rightarrow> gen_state \<Rightarrow> error + gen_state" where
  "gen_arg threads stage stage_type is_out is_last arg g =
     (case arg of
        TensorArg indx dt take_axis \<Rightarrow> gen_tensor stage stage_type is_out arg indx dt take_axis g
      | FloatArg indx \<Rightarrow>
          (let g1 = g\<lparr>reg_stack := Reg_c indx # reg_stack g\<rparr>
           in Inr (if arg_dict g1 arg = None then g1\<lparr>arg_dict := (arg_dict g1)(arg \<mapsto> [Sig_f])\<rparr>
                   else g1))
      | OpArg name cnt extra \<Rightarrow>
          if name = ''assign'' then gen_assign arg extra g
          else (case stage_out_reg g arg of
                  Some r \<Rightarrow> Inr (g\<lparr>reg_stack := r # reg_stack g\<rparr>)
                | None \<Rightarrow>
                    (case float_ops name of
                       Some num_ops \<Rightarrow> gen_float_op stage_type is_last arg name cnt extra num_ops g
                     | None \<Rightarrow>
                         if name \<in> set reduction_ops
                         then gen_reduction threads stage_type arg name cnt g
                         else Inl ValueError_bad_op)))"

text \<open>\<open>for arg_i, arg in enumerate(stage_stack)\<close>, from position \<open>arg_i\<close> on.\<close>

fun gen_stage ::
  "int \<Rightarrow> nat \<Rightarrow> string \<Rightarrow> bool \<Rightarrow> nat \<Rightarrow> type_arg list \<Rightarrow> gen_state \<Rightarrow> error + gen_state" where
  "gen_stage threads stage stage_type last_stage arg_i [] g = Inr g"
| "gen_stage threads stage stage_type last_stage arg_i (arg # rest) g =
     (case gen_arg threads stage stage_type (last_stage \<and> arg_i = 0) (rest = []) arg g of
        Inl e \<Rightarrow> Inl e
      | Inr g' \<Rightarrow> gen_stage threads stage stage_type last_stage (Suc arg_i) rest g')"

text \<open>\<open>for stage, stage_data in enumerate(stages)\<close>, from position \<open>stage\<close> on.\<close>

fun gen_stages ::
  "int \<Rightarrow> nat \<Rightarrow> (string \<times> type_arg list) list \<Rightarrow> gen_state \<Rightarrow> error + gen_state" where
  "gen_stages threads stage [] g = Inr g"
| "gen_stages threads stage ((stage_type, stage_stack) # rest) g =
     (case gen_stage threads stage stage_type (rest = []) 0 stage_stack g of
        Inl e \<Rightarrow> Inl e
      | Inr g' \<Rightarrow> gen_stages threads (Suc stage) rest g')"

text \<open>
  The argument list in the original order: an argument with an entry in \<open>arg_dict\<close> adds
  its characters and the entry is deleted; a reduction without one adds an unused \<open>i\<close>.
\<close>

fun build_sig :: "type_arg list \<Rightarrow> (type_arg \<rightharpoonup> sig_char list) \<Rightarrow> sig_char list" where
  "build_sig [] d = []"
| "build_sig (arg # rest) d =
     (case d arg of
        Some params \<Rightarrow> params @ build_sig rest (d(arg := None))
      | None \<Rightarrow> (if is_reduction arg then [Sig_i] else []) @ build_sig rest d)"

text \<open>\<open>type_args[-1][3]\<close>.\<close>

definition threads_of :: "type_arg list \<Rightarrow> error + int" where
  "threads_of type_args =
     (if type_args = [] then Inl IndexError
      else (case last type_args of
              TensorArg indx dt take_axis \<Rightarrow> Inr take_axis
            | OpArg name cnt (Rounding b t) \<Rightarrow> Inr t
            | _ \<Rightarrow> Inl IndexError))"

text \<open>\<open>tree[1] == 1\<close>: the scalar flag of a node, the index of a leaf.\<close>

definition last_stage_type :: "heap \<Rightarrow> operand \<Rightarrow> string" where
  "last_stage_type h tree =
     (if (case tree of Ref a \<Rightarrow> n_scalar (h ! a) | Arg x \<Rightarrow> arg_id x = 1)
      then ''red_out'' else ''ew_out'')"

text \<open>
  The stages of a signature: the ones split off, then the rest of the tree. The outer
  \<open>option\<close> is \<open>None\<close> when a recursion does not return.
\<close>

definition all_stages :: "type_arg list \<Rightarrow> (error + (string \<times> type_arg list) list) option" where
  "all_stages type_args =
     (case build_tree type_args of
        Inl e \<Rightarrow> Some (Inl e)
      | Inr (h, tree) \<Rightarrow>
          Option.bind (split_stages tree (init_state h)) (\<lambda>st.
          Option.bind (post_order (heap_of st) tree []) (\<lambda>rest.
            Some (Inr (stages st @ [(last_stage_type (heap_of st) tree, rest)])))))"

record kernel =
  prepared :: "sig_char list"

text \<open>
  The body of \<open>_get_compound_kernel\<close>. \<open>SourceModule\<close> is the device compiler, a parameter:
  whether it accepts the source generated for these \<open>type_args\<close>.
\<close>

definition compound_kernel :: "(type_arg list \<Rightarrow> bool) \<Rightarrow> type_arg list \<Rightarrow> (error + kernel) option" where
  "compound_kernel SourceModule type_args =
     Option.bind (all_stages type_args) (\<lambda>r.
       Some (case r of
          Inl e \<Rightarrow> Inl e
        | Inr stgs \<Rightarrow>
            (case threads_of type_args of
               Inl e \<Rightarrow> Inl e
             | Inr threads \<Rightarrow>
                 (case gen_stages threads 0 stgs
                         \<lparr>reg_stack = [], stage_out_reg = Map.empty, arg_dict = Map.empty,
                          array_ids = {}, out_dtype = None, out_take = None\<rparr> of
                    Inl e \<Rightarrow> Inl e
                  | Inr g \<Rightarrow>
                      if SourceModule type_args
                      then Inr \<lparr>prepared = Sig_P # build_sig type_args (arg_dict g)\<rparr>
                      else Inl CompileError))))"

text \<open>
  \<open>@context_dependent_memoize\<close>: a dictionary from the argument to the result; a call that
  raises stores nothing. \<open>compiled\<close> counts the runs of the body that reached the device
  compiler and got a kernel.
\<close>

record device =
  cache :: "type_arg list \<rightharpoonup> kernel"
  compiled :: nat

definition get_compound_kernel ::
  "(type_arg list \<Rightarrow> bool) \<Rightarrow> type_arg list \<Rightarrow> device \<Rightarrow> ((error + kernel) \<times> device) option" where
  "get_compound_kernel SourceModule type_args dev =
     (case cache dev type_args of
        Some k \<Rightarrow> Some (Inr k, dev)
      | None \<Rightarrow>
          Option.bind (compound_kernel SourceModule type_args) (\<lambda>r.
            Some (case r of
               Inl e \<Rightarrow> (Inl e, dev)
             | Inr k \<Rightarrow> (Inr k, dev\<lparr>cache := (cache dev)(type_args \<mapsto> k),
                                     compiled := Suc (compiled dev)\<rparr>))))"

subsection \<open>\<open>call_compound_kernel\<close>\<close>

text \<open>
  What the driver reads of a tensor handle. \<open>ident\<close> is the identity of the Python object,
  by which the dictionary \<open>array_ids\<close> finds it; \<open>dtype\<close> is \<open>arg.dtype.str[1:]\<close>
  (\<open>f4\<close> for \<open>np.float32\<close>, \<open>f2\<close> for \<open>np.float16\<close>); \<open>take_array\<close> holds
  \<open>take_array[0].gpudata\<close> and \<open>take_array[1]\<close>; \<open>bench\<close> is \<open>backend.bench\<close>.
  \<open>rounding\<close> is a boolean or a number of mantissa bits.
\<close>

datatype rounding_mode = RBool bool | RInt int

record GPUTensor =
  ident :: nat
  shape :: "int list"
  strides :: "int list"
  dtype :: string
  gpudata :: nat
  take_array :: "(nat \<times> int) option"
  is_trans :: bool
  is_contiguous :: bool
  tensor_size :: int
  rounding :: rounding_mode
  bench :: int

text \<open>
  An element of \<open>args\<close>: a tensor, an \<open>int\<close> or \<open>float\<close> (as the value of \<open>float(arg)\<close>),
  an operation dictionary with its \<open>"op"\<close>, its \<open>"axis"\<close> (if an integer is there) and the
  \<open>gpudata\<close> of its \<open>"idx"\<close> (if there), or anything else.
\<close>

datatype py_arg =
    Tensor GPUTensor
  | Number rat
  | OpDict string "int option" "nat option"
  | Other

text \<open>An entry of \<open>kernel_args\<close>: a device pointer, an integer or a float.\<close>

datatype kernel_arg = Ptr nat | IntArg int | FloatVal rat

record flags =
  contiguous :: bool
  reduction :: bool
  broadcast :: bool
  transpose_flag :: bool
  argminmax :: bool
  takeop :: bool
  axis :: int

text \<open>The first loop over \<open>args\<close>, one argument.\<close>

fun classify :: "py_arg \<Rightarrow> flags \<Rightarrow> error + flags" where
  "classify (OpDict name ax ix) f =
     (if name \<in> set reduction_ops then
        (let f1 = (if take 3 name = ''arg'' then f\<lparr>argminmax := True\<rparr> else f) in
         if ax \<noteq> Some 0 \<and> ax \<noteq> Some 1 then Inl ValueError_axis
         else if reduction f1 then
           (if the ax \<noteq> axis f1 then Inl ValueError_one_axis else Inr f1)
         else Inr (f1\<lparr>reduction := True, axis := the ax\<rparr>))
      else if name = ''onehot'' then Inr (f\<lparr>takeop := True\<rparr>)
      else Inr f)"
| "classify (Tensor t) f =
     (if length (shape t) < 2 \<or> (length (shape t) = 2 \<and> (shape t ! 0 = 1 \<or> shape t ! 1 = 1))
      then Inr (f\<lparr>broadcast := True\<rparr>)
      else if is_trans t then Inr (f\<lparr>transpose_flag := True\<rparr>)
      else if take_array t \<noteq> None then Inr (f\<lparr>takeop := True\<rparr>)
      else if \<not> is_contiguous t then Inr (f\<lparr>contiguous := False\<rparr>)
      else Inr f)"
| "classify a f = Inr f"

fun classify_all :: "py_arg list \<Rightarrow> flags \<Rightarrow> error + flags" where
  "classify_all [] f = Inr f"
| "classify_all (a # as) f =
     (case classify a f of Inl e \<Rightarrow> Inl e | Inr f' \<Rightarrow> classify_all as f')"

definition init_flags :: flags where
  "init_flags = \<lparr>contiguous = True, reduction = False, broadcast = False,
                  transpose_flag = False, argminmax = False, takeop = False, axis = 1\<rparr>"

text \<open>The state of the second loop.\<close>

record call_state =
  out :: "GPUTensor option"
  arg_cnt :: nat
  op_cnt :: nat
  tensor_ids :: "nat \<rightharpoonup> nat"            \<comment> \<open>\<open>array_ids\<close>, by the identity of the tensor\<close>
  const_ids :: "rat \<rightharpoonup> nat"
  kernel_args :: "kernel_arg list"
  type_args :: "type_arg list"
  shape_stack :: "(int \<times> int) list"      \<comment> \<open>top at the head\<close>
  threads :: int
  red_depth :: int
  max_shape :: "(int \<times> int) option"      \<comment> \<open>\<open>None\<close> while the variable is unbound\<close>

text \<open>\<open>shape[i]\<close> and \<open>shape[i] = v\<close> for a shape of two axes; other indices raise.\<close>

definition at_axis :: "int \<times> int \<Rightarrow> int \<Rightarrow> error + int" where
  "at_axis shp i = (if i = 0 \<or> i = - 2 then Inr (fst shp)
                    else if i = 1 \<or> i = - 1 then Inr (snd shp) else Inl IndexError)"

definition set_axis :: "int \<times> int \<Rightarrow> int \<Rightarrow> int \<Rightarrow> error + int \<times> int" where
  "set_axis shp i v = (if i = 0 \<or> i = - 2 then Inr (v, snd shp)
                       else if i = 1 \<or> i = - 1 then Inr (fst shp, v) else Inl IndexError)"

text \<open>Python's \<open>xs[i]\<close> and \<open>xs[i] = v\<close> on a list; negative indices count from the end.\<close>

definition py_index :: "'a list \<Rightarrow> int \<Rightarrow> error + nat" where
  "py_index xs i =
     (if 0 \<le> i \<and> i < int (length xs) then Inr (nat i)
      else if i < 0 \<and> - int (length xs) \<le> i then Inr (nat (int (length xs) + i))
      else Inl IndexError)"

definition py_get :: "'a list \<Rightarrow> int \<Rightarrow> error + 'a" where
  "py_get xs i = (case py_index xs i of Inl e \<Rightarrow> Inl e | Inr j \<Rightarrow> Inr (xs ! j))"

definition py_set :: "'a list \<Rightarrow> int \<Rightarrow> 'a \<Rightarrow> error + 'a list" where
  "py_set xs i v = (case py_index xs i of Inl e \<Rightarrow> Inl e | Inr j \<Rightarrow> Inr (xs[j := v]))"

text \<open>
  The shape arithmetic of one operand: \<open>for i in range(2)\<close>, an axis that differs is
  taken from the operand or from \<open>max_shape\<close> when one of them is 1, and raises otherwise.
\<close>

definition unify_axis :: "int \<Rightarrow> int \<Rightarrow> int option" where
  "unify_axis s m =
     (if s \<noteq> m then (if s = 1 \<or> m = 1 then Some (max m s) else None) else Some m)"

definition unify_shape :: "int \<times> int \<Rightarrow> int \<times> int \<Rightarrow> error + int \<times> int" where
  "unify_shape shp ms =
     (case unify_axis (fst shp) (fst ms) of
        None \<Rightarrow> Inl (TypeError_shape shp)
      | Some m0 \<Rightarrow>
          (case unify_axis (snd shp) (snd ms) of
             None \<Rightarrow> Inl (TypeError_shape shp)
           | Some m1 \<Rightarrow> Inr (m0, m1)))"

text \<open>\<open>for op_num in range(_float_ops[op_name][0]): shape = shape_stack.pop() ...\<close>.\<close>

fun pop_shapes :: "nat \<Rightarrow> (int \<times> int) list \<Rightarrow> int \<times> int \<Rightarrow> error + ((int \<times> int) \<times> (int \<times> int) list)" where
  "pop_shapes 0 ss ms = Inr (ms, ss)"
| "pop_shapes (Suc n) [] ms = Inl IndexError"
| "pop_shapes (Suc n) (shp # ss) ms =
     (case unify_shape shp ms of Inl e \<Rightarrow> Inl e | Inr ms' \<Rightarrow> pop_shapes n ss ms')"

text \<open>The thread count chosen at \<open>assign\<close>; \<open>threads\<close> keeps its value in the other cases.\<close>

definition select_threads :: "flags \<Rightarrow> int \<Rightarrow> int \<times> int \<Rightarrow> int \<Rightarrow> int" where
  "select_threads f depth ms thr =
     (if reduction f \<and> \<not> argminmax f then
        (if depth \<ge> 4096 then 1024
         else if depth \<ge> 2048 then 512
         else if depth \<ge> 1024 then 256
         else if depth \<ge> 512 then 128
         else if depth \<ge> 256 then 64
         else thr)
      else if \<not> (reduction f \<or> transpose_flag f) \<and> snd ms \<ge> 512 then 256
      else thr)"

text \<open>
  The mantissa bits passed for a rounding mode that is true: \<open>None\<close> when no argument is
  added; the second component is the value of \<open>rounding\<close> that \<open>rounding > 0\<close> reads.
\<close>

definition rounding_bits :: "GPUTensor \<Rightarrow> int option \<times> int" where
  "rounding_bits t =
     (case rounding t of
        RBool False \<Rightarrow> (None, 0)
      | RBool True \<Rightarrow> (Some (max 10 1), 10)
      | RInt r \<Rightarrow>
          if r = 0 then (None, 0)
          else (let r' = (if dtype t = ''f4'' then min r 15
                          else if dtype t = ''f2'' then min r 10 else r)
                in (Some (max r' 1), r')))"

definition do_assign :: "flags \<Rightarrow> string \<Rightarrow> int \<times> int \<Rightarrow> call_state \<Rightarrow> error + call_state" where
  "do_assign f name ms c =
     (case at_axis ms (axis f) of
        Inl e \<Rightarrow> Inl e
      | Inr n \<Rightarrow>
          (case out c of
             None \<Rightarrow> Inl AttributeError
           | Some t \<Rightarrow>
               (let (bits, r) = rounding_bits t;
                    ka = kernel_args c @ [IntArg n] @ (case bits of None \<Rightarrow> [] | Some b \<Rightarrow> [IntArg b]);
                    thr = select_threads f (red_depth c) ms (threads c)
                in Inr (c\<lparr>kernel_args := ka, threads := thr,
                          type_args := type_args c @ [OpArg name (op_cnt c) (Rounding (r > 0) thr)]\<rparr>))))"

definition do_float_op :: "flags \<Rightarrow> string \<Rightarrow> int option \<Rightarrow> nat option \<Rightarrow> nat \<Rightarrow> call_state \<Rightarrow> error + call_state" where
  "do_float_op f name ax ix numops c =
     (case pop_shapes numops (shape_stack c) (1, 1) of
        Inl e \<Rightarrow> Inl e
      | Inr (ms, ss) \<Rightarrow>
          (let c1 = c\<lparr>shape_stack := ss, max_shape := Some ms\<rparr> in
           if name = ''assign'' then do_assign f name ms c1
           else if name = ''onehot'' then
             (case ax of
                None \<Rightarrow> Inl KeyError
              | Some a \<Rightarrow>
                  (let hot_axis = (if axis f \<noteq> 0 then a else 1 - a) in
                   case ix of
                     None \<Rightarrow> Inl KeyError
                   | Some p \<Rightarrow>
                       Inr (c1\<lparr>type_args := type_args c1 @ [OpArg name (op_cnt c1) (HotAxis hot_axis)],
                               shape_stack := ms # shape_stack c1,
                               kernel_args := kernel_args c1 @ [Ptr p]\<rparr>)))
           else Inr (c1\<lparr>type_args := type_args c1 @ [OpArg name (op_cnt c1) NoExtra],
                        shape_stack := ms # shape_stack c1\<rparr>)))"

definition do_reduction :: "flags \<Rightarrow> string \<Rightarrow> call_state \<Rightarrow> error + call_state" where
  "do_reduction f name c =
     (case shape_stack c of
        [] \<Rightarrow> Inl IndexError
      | shp # ss \<Rightarrow>
          (case at_axis shp (axis f) of
             Inl e \<Rightarrow> Inl e
           | Inr n \<Rightarrow>
               (case set_axis shp (axis f) 1 of
                  Inl e \<Rightarrow> Inl e
                | Inr shp' \<Rightarrow>
                    Inr (c\<lparr>red_depth := max (red_depth c) n,
                           kernel_args := kernel_args c @ [IntArg n],
                           type_args := type_args c @ [OpArg name (op_cnt c) NoExtra],
                           shape_stack := shp' # ss\<rparr>))))"

text \<open>The shape and the strides a tensor is read with.\<close>

definition tensor_dims ::
  "(int \<times> int \<Rightarrow> int \<times> int) \<Rightarrow> flags \<Rightarrow> GPUTensor \<Rightarrow> error + ((int \<times> int) \<times> int list)" where
  "tensor_dims contiguous_strides f t =
     (let stride_order = (if axis f = 1 then 1 else - 1 :: int) in
      if broadcast f \<or> reduction f \<or> transpose_flag f \<or> takeop f \<or> \<not> contiguous f then
        (if length (shape t) = 2
         then Inr ((shape t ! 0, shape t ! 1),
                   if stride_order = 1 then strides t else rev (strides t))
         else Inl ValueError_2d)
      else
        (case get_fast_ew_dims contiguous_strides (tensor_size t) of
           Inl e \<Rightarrow> Inl e
         | Inr (shp, (s0, s1)) \<Rightarrow>
             Inr (shp, if stride_order = 1 then [s0, s1] else rev [s0, s1])))"

text \<open>The branch of a tensor that is not yet in \<open>array_ids\<close>.\<close>

definition new_tensor :: "flags \<Rightarrow> GPUTensor \<Rightarrow> int \<times> int \<Rightarrow> int list \<Rightarrow> call_state \<Rightarrow> error + (nat \<times> call_state)" where
  "new_tensor f t shp strd c =
     (let indx = arg_cnt c;
          c1 = (if out c = None then c\<lparr>out := Some t\<rparr>
                else c\<lparr>tensor_ids := (tensor_ids c)(ident t \<mapsto> arg_cnt c)\<rparr>);
          c2 = c1\<lparr>arg_cnt := Suc (arg_cnt c1)\<rparr>
      in case (if fst shp = 1 then py_set strd (1 - axis f) 0 else Inr strd) of
           Inl e \<Rightarrow> Inl e
         | Inr strd1 \<Rightarrow>
             (case (if snd shp = 1 then py_set strd1 (axis f) 0 else Inr strd1) of
                Inl e \<Rightarrow> Inl e
              | Inr strd2 \<Rightarrow>
                  (case py_get strd2 0 of
                     Inl e \<Rightarrow> Inl e
                   | Inr s0 \<Rightarrow>
                       (case py_get strd2 1 of
                          Inl e \<Rightarrow> Inl e
                        | Inr s1 \<Rightarrow>
                            Inr (indx,
                                 c2\<lparr>kernel_args := kernel_args c2 @ [Ptr (gpudata t), IntArg s0, IntArg s1]
                                       @ (case take_array t of None \<Rightarrow> [] | Some (p, ta) \<Rightarrow> [Ptr p])\<rparr>)))))"

definition do_tensor ::
  "(int \<times> int \<Rightarrow> int \<times> int) \<Rightarrow> flags \<Rightarrow> GPUTensor \<Rightarrow> call_state \<Rightarrow> error + call_state" where
  "do_tensor contiguous_strides f t c =
     (case tensor_dims contiguous_strides f t of
        Inl e \<Rightarrow> Inl e
      | Inr (shp, strd) \<Rightarrow>
          (case (case tensor_ids c (ident t) of
                   Some indx \<Rightarrow> Inr (indx, c)
                 | None \<Rightarrow> new_tensor f t shp strd c) of
             Inl e \<Rightarrow> Inl e
           | Inr (indx, c1) \<Rightarrow>
               (let take_axis = (case take_array t of
                                   Some (p, ta) \<Rightarrow> if axis f \<noteq> 1 then 2 - ta else ta + 1
                                 | None \<Rightarrow> 0)
                in Inr (c1\<lparr>type_args := type_args c1 @ [TensorArg indx (dtype t) take_axis],
                          shape_stack := shp # shape_stack c1\<rparr>))))"

definition do_number :: "rat \<Rightarrow> call_state \<Rightarrow> call_state" where
  "do_number x c =
     (let (indx, c1) = (case const_ids c x of
                          Some indx \<Rightarrow> (indx, c)
                        | None \<Rightarrow> (arg_cnt c,
                                    c\<lparr>const_ids := (const_ids c)(x \<mapsto> arg_cnt c),
                                      arg_cnt := Suc (arg_cnt c),
                                      kernel_args := kernel_args c @ [FloatVal x]\<rparr>))
      in c1\<lparr>type_args := type_args c1 @ [FloatArg indx],
            shape_stack := (1, 1) # shape_stack c1\<rparr>)"

text \<open>The second loop over \<open>args\<close>, one argument.\<close>

fun marshal :: "(int \<times> int \<Rightarrow> int \<times> int) \<Rightarrow> flags \<Rightarrow> py_arg \<Rightarrow> call_state \<Rightarrow> error + call_state" where
  "marshal cs f (Tensor t) c = do_tensor cs f t c"
| "marshal cs f (Number x) c = Inr (do_number x c)"
| "marshal cs f (OpDict name ax ix) c =
     (case (case float_ops name of
              Some numops \<Rightarrow> do_float_op f name ax ix numops c
            | None \<Rightarrow>
                if name \<in> set reduction_ops then do_reduction f name c
                else Inl (TypeError_op name)) of
        Inl e \<Rightarrow> Inl e
      | Inr c' \<Rightarrow> Inr (c'\<lparr>op_cnt := Suc (op_cnt c')\<rparr>))"
| "marshal cs f Other c = Inl TypeError_arg"

fun marshal_all :: "(int \<times> int \<Rightarrow> int \<times> int) \<Rightarrow> flags \<Rightarrow> py_arg list \<Rightarrow> call_state \<Rightarrow> error + call_state" where
  "marshal_all cs f [] c = Inr c"
| "marshal_all cs f (a # as) c =
     (case marshal cs f a c of Inl e \<Rightarrow> Inl e | Inr c' \<Rightarrow> marshal_all cs f as c')"

definition init_call :: "kernel_arg \<Rightarrow> call_state" where
  "init_call rand_state =
     \<lparr>out = None, arg_cnt = 0, op_cnt = 0, tensor_ids = Map.empty, const_ids = Map.empty,
      kernel_args = [rand_state], type_args = [], shape_stack = [], threads = 32,
      red_depth = 0, max_shape = None\<rparr>"

text \<open>
  Everything before the kernel is fetched: the two loops. It touches neither the cache nor
  the device.
\<close>

definition prepare_call ::
  "(int \<times> int \<Rightarrow> int \<times> int) \<Rightarrow> kernel_arg \<Rightarrow> py_arg list \<Rightarrow> error + (flags \<times> call_state)" where
  "prepare_call cs rand_state args =
     (case classify_all args init_flags of
        Inl e \<Rightarrow> Inl e
      | Inr f \<Rightarrow>
          (case marshal_all cs f args (init_call rand_state) of
             Inl e \<Rightarrow> Inl e
           | Inr c \<Rightarrow> Inr (f, c)))"

text \<open>
  A launch: the grid, the block, the arguments and the bytes of shared memory of one
  \<open>prepared_async_call\<close>, with the kernel's prepared signature.
\<close>

record launch =
  grid :: int
  block :: int
  launch_args :: "kernel_arg list"
  shared_size :: int
  launch_sig :: "sig_char list"

text \<open>
  The call: the result is the exception raised or the output tensor with the launches
  issued, next to the state of the kernel cache after the call.
\<close>

definition call_compound_kernel ::
  "(int \<times> int \<Rightarrow> int \<times> int) \<Rightarrow> (type_arg list \<Rightarrow> bool) \<Rightarrow> device \<Rightarrow> kernel_arg \<Rightarrow> py_arg list \<Rightarrow>
     ((error + (GPUTensor \<times> launch list)) \<times> device) option" where
  "call_compound_kernel cs SourceModule dev rand_state args =
     (case prepare_call cs rand_state args of
        Inl e \<Rightarrow> Some (Inl e, dev)
      | Inr (f, c) \<Rightarrow>
          Option.bind (get_compound_kernel SourceModule (type_args c) dev) (\<lambda>(r, dev').
            Some (case r of
               Inl e \<Rightarrow> (Inl e, dev')
             | Inr k \<Rightarrow>
                 (let shared = (if reduction f \<and> threads c > 32 then threads c * 4 else 0) in
                  case out c of
                    None \<Rightarrow> (Inl AttributeError, dev')
                  | Some t \<Rightarrow>
                      (let repeat = (if bench t > 1 then bench t else 1) in
                       case max_shape c of
                         None \<Rightarrow> (Inl NameError, dev')
                       | Some ms \<Rightarrow>
                           (case at_axis ms (1 - axis f) of
                              Inl e \<Rightarrow> (Inl e, dev')
                            | Inr blocks \<Rightarrow>
                                (Inr (t, replicate (nat repeat)
                                           \<lparr>grid = blocks, block = threads c,
                                            launch_args = kernel_args c, shared_size = shared,
                                            launch_sig = prepared k\<rparr>),
                                 dev')))))))"

section \<open>Properties\<close>

subsection \<open>The synthetic 2-D decomposition\<close>

lemma scan1_le0: "n \<le> 0 \<Longrightarrow> scan1 sz n = n"
  by (subst scan1.simps) simp

lemma scan1_hit: "0 < n \<Longrightarrow> sz mod n = 0 \<Longrightarrow> scan1 sz n = n"
  by (subst scan1.simps) simp

lemma scan1_miss: "0 < n \<Longrightarrow> sz mod n \<noteq> 0 \<Longrightarrow> scan1 sz n = scan1 sz (n - 1)"
  by (subst scan1.simps) simp

definition scan_result :: "int \<Rightarrow> int \<Rightarrow> int \<Rightarrow> bool" where
  "scan_result sz n r \<longleftrightarrow>
     (r = 0 \<and> (\<forall>d. 0 < d \<and> d \<le> n \<longrightarrow> sz mod d \<noteq> 0)) \<or>
     (0 < r \<and> r \<le> n \<and> sz mod r = 0 \<and> (\<forall>d. r < d \<and> d \<le> n \<longrightarrow> sz mod d \<noteq> 0))"

lemma no_div_step:
  assumes a: "\<forall>d. r < d \<and> d \<le> n - 1 \<longrightarrow> sz mod d \<noteq> 0" and m: "sz mod n \<noteq> (0::int)"
  shows "\<forall>d. r < d \<and> d \<le> n \<longrightarrow> sz mod d \<noteq> 0"
proof (intro allI impI)
  fix d assume h: "r < d \<and> d \<le> n"
  show "sz mod d \<noteq> 0"
  proof (cases "d = n")
    case True with m show ?thesis by simp
  next
    case False
    with h have "r < d \<and> d \<le> n - 1" by simp
    with a show ?thesis by simp
  qed
qed

lemma scan_result_step:
  assumes "scan_result sz (n - 1) r" and "sz mod n \<noteq> 0"
  shows "scan_result sz n r"
proof (cases "r = 0")
  case True
  with assms(1) have "\<forall>d. 0 < d \<and> d \<le> n - 1 \<longrightarrow> sz mod d \<noteq> 0"
    by (simp add: scan_result_def)
  then have "\<forall>d. 0 < d \<and> d \<le> n \<longrightarrow> sz mod d \<noteq> 0"
    using assms(2) by (rule no_div_step)
  with True show ?thesis by (simp add: scan_result_def)
next
  case False
  with assms(1) have r: "0 < r" "r \<le> n - 1" "sz mod r = 0"
    and a: "\<forall>d. r < d \<and> d \<le> n - 1 \<longrightarrow> sz mod d \<noteq> 0"
    by (simp_all add: scan_result_def)
  from a assms(2) have "\<forall>d. r < d \<and> d \<le> n \<longrightarrow> sz mod d \<noteq> 0" by (rule no_div_step)
  with r show ?thesis by (simp add: scan_result_def)
qed

lemma scan1_spec: "0 \<le> n \<Longrightarrow> scan_result sz n (scan1 sz n)"
proof (induction "nat n" arbitrary: n)
  case 0
  then have "n = 0" by simp
  then show ?case by (simp add: scan1_le0 scan_result_def)
next
  case (Suc k)
  then have pos: "0 < n" and k: "k = nat (n - 1)" and nn: "0 \<le> n - 1" by auto
  show ?case
  proof (cases "sz mod n = 0")
    case True
    with pos show ?thesis by (simp add: scan1_hit scan_result_def)
  next
    case False
    have eq: "scan1 sz n = scan1 sz (n - 1)" using pos False by (rule scan1_miss)
    from Suc.hyps(1)[OF k nn] False show ?thesis unfolding eq by (rule scan_result_step)
  qed
qed

lemma scan32_le0: "n \<le> 0 \<Longrightarrow> scan32 sz n = n"
  by (subst scan32.simps) simp

lemma scan32_hit: "0 < n \<Longrightarrow> sz mod n = 0 \<Longrightarrow> scan32 sz n = n"
  by (subst scan32.simps) simp

lemma scan32_miss: "0 < n \<Longrightarrow> sz mod n \<noteq> 0 \<Longrightarrow> scan32 sz n = scan32 sz (n - 32)"
  by (subst scan32.simps) simp

definition near256 :: "int set" where
  "near256 = (\<lambda>k. 32 * k) ` {1..8}"

definition largest_in :: "int set \<Rightarrow> int \<Rightarrow> int \<Rightarrow> bool" where
  "largest_in S sz e \<longleftrightarrow> e \<in> S \<and> sz mod e = 0 \<and> (\<forall>d\<in>S. sz mod d = 0 \<longrightarrow> d \<le> e)"

definition chosen_ew :: "int \<Rightarrow> int \<Rightarrow> bool" where
  "chosen_ew sz e \<longleftrightarrow>
     (if \<exists>d\<in>near256. sz mod d = 0 then largest_in near256 sz e
      else largest_in {1..255} sz e)"

definition scan32_result :: "int \<Rightarrow> int \<Rightarrow> int \<Rightarrow> bool" where
  "scan32_result sz k r \<longleftrightarrow>
     (r = 0 \<and> (\<forall>j. 0 < j \<and> j \<le> k \<longrightarrow> sz mod (32 * j) \<noteq> 0)) \<or>
     (\<exists>i. 0 < i \<and> i \<le> k \<and> r = 32 * i \<and> sz mod r = 0 \<and>
          (\<forall>j. i < j \<and> j \<le> k \<longrightarrow> sz mod (32 * j) \<noteq> 0))"

lemma no_div32_step:
  assumes a: "\<forall>j. i < j \<and> j \<le> k - 1 \<longrightarrow> sz mod (32 * j) \<noteq> 0"
    and m: "sz mod (32 * k) \<noteq> (0::int)"
  shows "\<forall>j. i < j \<and> j \<le> k \<longrightarrow> sz mod (32 * j) \<noteq> 0"
proof (intro allI impI)
  fix j assume h: "i < j \<and> j \<le> k"
  show "sz mod (32 * j) \<noteq> 0"
  proof (cases "j = k")
    case True with m show ?thesis by simp
  next
    case False
    with h have "i < j \<and> j \<le> k - 1" by simp
    with a show ?thesis by simp
  qed
qed

lemma scan32_result_step:
  assumes "scan32_result sz (k - 1) r" and "sz mod (32 * k) \<noteq> 0"
  shows "scan32_result sz k r"
  using assms(1) unfolding scan32_result_def
proof (elim disjE conjE exE)
  assume r: "r = 0" and a: "\<forall>j. 0 < j \<and> j \<le> k - 1 \<longrightarrow> sz mod (32 * j) \<noteq> 0"
  from a assms(2) have "\<forall>j. 0 < j \<and> j \<le> k \<longrightarrow> sz mod (32 * j) \<noteq> 0" by (rule no_div32_step)
  with r show "r = 0 \<and> (\<forall>j. 0 < j \<and> j \<le> k \<longrightarrow> sz mod (32 * j) \<noteq> 0) \<or>
    (\<exists>i. 0 < i \<and> i \<le> k \<and> r = 32 * i \<and> sz mod r = 0 \<and>
          (\<forall>j. i < j \<and> j \<le> k \<longrightarrow> sz mod (32 * j) \<noteq> 0))" by simp
next
  fix i
  assume i: "0 < i" "i \<le> k - 1" "r = 32 * i" "sz mod r = 0"
    and a: "\<forall>j. i < j \<and> j \<le> k - 1 \<longrightarrow> sz mod (32 * j) \<noteq> 0"
  from a assms(2) have "\<forall>j. i < j \<and> j \<le> k \<longrightarrow> sz mod (32 * j) \<noteq> 0" by (rule no_div32_step)
  with i have "0 < i \<and> i \<le> k \<and> r = 32 * i \<and> sz mod r = 0 \<and>
          (\<forall>j. i < j \<and> j \<le> k \<longrightarrow> sz mod (32 * j) \<noteq> 0)" by simp
  then have "\<exists>i. 0 < i \<and> i \<le> k \<and> r = 32 * i \<and> sz mod r = 0 \<and>
          (\<forall>j. i < j \<and> j \<le> k \<longrightarrow> sz mod (32 * j) \<noteq> 0)" by (rule exI)
  then show "r = 0 \<and> (\<forall>j. 0 < j \<and> j \<le> k \<longrightarrow> sz mod (32 * j) \<noteq> 0) \<or>
    (\<exists>i. 0 < i \<and> i \<le> k \<and> r = 32 * i \<and> sz mod r = 0 \<and>
          (\<forall>j. i < j \<and> j \<le> k \<longrightarrow> sz mod (32 * j) \<noteq> 0))" by (rule disjI2)
qed

lemma scan32_gen: "0 \<le> k \<Longrightarrow> scan32_result sz k (scan32 sz (32 * k))"
proof (induction "nat k" arbitrary: k)
  case 0
  then have "k = 0" by simp
  then show ?case by (simp add: scan32_le0 scan32_result_def)
next
  case (Suc n)
  then have pos: "0 < k" and n: "n = nat (k - 1)" and nn: "0 \<le> k - 1" by auto
  show ?case
  proof (cases "sz mod (32 * k) = 0")
    case True
    have "scan32 sz (32 * k) = 32 * k" using pos True by (intro scan32_hit) simp_all
    moreover have "0 < k \<and> k \<le> k \<and> 32 * k = 32 * k \<and> sz mod (32 * k) = 0 \<and>
          (\<forall>j. k < j \<and> j \<le> k \<longrightarrow> sz mod (32 * j) \<noteq> 0)" using pos True by simp
    then have "\<exists>i. 0 < i \<and> i \<le> k \<and> 32 * k = 32 * i \<and> sz mod (32 * k) = 0 \<and>
          (\<forall>j. i < j \<and> j \<le> k \<longrightarrow> sz mod (32 * j) \<noteq> 0)" by (rule exI)
    ultimately show ?thesis unfolding scan32_result_def by simp
  next
    case False
    have "scan32 sz (32 * k) = scan32 sz (32 * k - 32)"
      using pos False by (intro scan32_miss) simp_all
    also have "32 * k - 32 = 32 * (k - 1)" by simp
    finally have eq: "scan32 sz (32 * k) = scan32 sz (32 * (k - 1))" .
    from Suc.hyps(1)[OF n nn] False show ?thesis unfolding eq by (rule scan32_result_step)
  qed
qed

lemma near256_iff: "d \<in> near256 \<longleftrightarrow> (\<exists>j. 0 < j \<and> j \<le> 8 \<and> d = 32 * j)"
proof
  assume "d \<in> near256"
  then obtain k where k: "k \<in> {1..8}" "d = 32 * k" unfolding near256_def by (rule imageE)
  then have "0 < k \<and> k \<le> 8 \<and> d = 32 * k" by simp
  then show "\<exists>j. 0 < j \<and> j \<le> 8 \<and> d = 32 * j" by (rule exI)
next
  assume "\<exists>j. 0 < j \<and> j \<le> 8 \<and> d = 32 * j"
  then obtain j where j: "0 < j" "j \<le> 8" "d = 32 * j" by (elim exE conjE)
  then have "j \<in> {1..8}" by simp
  with j(3) show "d \<in> near256" unfolding near256_def by (rule image_eqI)
qed

lemma scan32_spec:
  "scan32 sz 256 = 0 \<and> (\<forall>d\<in>near256. sz mod d \<noteq> 0) \<or> largest_in near256 sz (scan32 sz 256)"
proof -
  have "scan32_result sz 8 (scan32 sz (32 * 8))" by (rule scan32_gen) simp
  then have sr: "scan32_result sz 8 (scan32 sz 256)" by simp
  then show ?thesis unfolding scan32_result_def
  proof (elim disjE conjE exE)
    assume r: "scan32 sz 256 = 0" and a: "\<forall>j. 0 < j \<and> j \<le> 8 \<longrightarrow> sz mod (32 * j) \<noteq> 0"
    have "\<forall>d\<in>near256. sz mod d \<noteq> 0"
    proof
      fix d assume "d \<in> near256"
      then obtain j where "0 < j \<and> j \<le> 8" "d = 32 * j" unfolding near256_iff by (elim exE conjE) simp
      with a show "sz mod d \<noteq> 0" by simp
    qed
    with r show ?thesis by simp
  next
    fix i
    assume i: "0 < i" "i \<le> 8" "scan32 sz 256 = 32 * i" "sz mod scan32 sz 256 = 0"
      and a: "\<forall>j. i < j \<and> j \<le> 8 \<longrightarrow> sz mod (32 * j) \<noteq> 0"
    have mem: "scan32 sz 256 \<in> near256" unfolding near256_iff using i by (intro exI[of _ i]) simp
    have "\<forall>d\<in>near256. sz mod d = 0 \<longrightarrow> d \<le> scan32 sz 256"
    proof (intro ballI impI)
      fix d assume "d \<in> near256" and m: "sz mod d = 0"
      then obtain j where j: "0 < j \<and> j \<le> 8" "d = 32 * j" unfolding near256_iff by (elim exE conjE) simp
      show "d \<le> scan32 sz 256"
      proof (rule ccontr)
        assume "\<not> d \<le> scan32 sz 256"
        with i(3) j have "i < j \<and> j \<le> 8" by simp
        with a have "sz mod (32 * j) \<noteq> 0" by simp
        with m j show False by simp
      qed
    qed
    with mem i(4) have "largest_in near256 sz (scan32 sz 256)" by (simp add: largest_in_def)
    then show ?thesis by (rule disjI2)
  qed
qed

lemma scan1_255: "largest_in {1..255} sz (scan1 sz 255)"
proof -
  have sr: "scan_result sz 255 (scan1 sz 255)" by (rule scan1_spec) simp
  have not0: "\<not> (\<forall>d. 0 < d \<and> d \<le> 255 \<longrightarrow> sz mod d \<noteq> 0)"
  proof
    assume "\<forall>d. 0 < d \<and> d \<le> 255 \<longrightarrow> sz mod d \<noteq> 0"
    then have "(0::int) < 1 \<and> (1::int) \<le> 255 \<longrightarrow> sz mod 1 \<noteq> 0" by (rule spec)
    then show False by simp
  qed
  from sr not0 have r: "0 < scan1 sz 255 \<and> scan1 sz 255 \<le> 255 \<and> sz mod scan1 sz 255 = 0 \<and>
      (\<forall>d. scan1 sz 255 < d \<and> d \<le> 255 \<longrightarrow> sz mod d \<noteq> 0)"
    unfolding scan_result_def by (elim disjE) simp_all
  then have a: "\<forall>d. scan1 sz 255 < d \<and> d \<le> 255 \<longrightarrow> sz mod d \<noteq> 0" by simp
  have "\<forall>d\<in>{1..255}. sz mod d = 0 \<longrightarrow> d \<le> scan1 sz 255"
  proof (intro ballI impI)
    fix d assume d: "d \<in> {1..255}" and m: "sz mod d = 0"
    show "d \<le> scan1 sz 255"
    proof (rule ccontr)
      assume "\<not> d \<le> scan1 sz 255"
      with d have "scan1 sz 255 < d \<and> d \<le> 255" by simp
      with a m show False by simp
    qed
  qed
  with r show ?thesis by (simp add: largest_in_def)
qed

lemma near256_pos: "e \<in> near256 \<Longrightarrow> 0 < e"
  unfolding near256_iff by (elim exE conjE) simp

lemma largest_in_near256_nonzero: "largest_in near256 sz e \<Longrightarrow> e \<noteq> 0"
  using near256_pos[of e] by (simp add: largest_in_def)

lemma fast_ew_size_chosen: "chosen_ew sz (fast_ew_size sz)"
proof (cases "\<exists>d\<in>near256. sz mod d = 0")
  case True
  then have "\<not> (\<forall>d\<in>near256. sz mod d \<noteq> 0)" by simp
  with scan32_spec[of sz] have l: "largest_in near256 sz (scan32 sz 256)"
    by (elim disjE) simp_all
  then have "scan32 sz 256 \<noteq> 0" by (rule largest_in_near256_nonzero)
  with l True show ?thesis by (simp add: chosen_ew_def fast_ew_size_def)
next
  case False
  have "\<not> largest_in near256 sz (scan32 sz 256)"
  proof
    assume "largest_in near256 sz (scan32 sz 256)"
    then have "scan32 sz 256 \<in> near256 \<and> sz mod scan32 sz 256 = 0" by (simp add: largest_in_def)
    then have "\<exists>d\<in>near256. sz mod d = 0" by (intro bexI[of _ "scan32 sz 256"]) simp_all
    with False show False by simp
  qed
  with scan32_spec[of sz] have "scan32 sz 256 = 0" by (elim disjE) simp_all
  with False scan1_255[of sz] show ?thesis by (simp add: chosen_ew_def fast_ew_size_def)
qed

lemma chosen_ew_pos: "chosen_ew sz e \<Longrightarrow> 0 < e \<and> sz mod e = 0"
proof -
  assume "chosen_ew sz e"
  then have "largest_in near256 sz e \<or> largest_in {1..255} sz e"
    by (simp add: chosen_ew_def split: if_splits)
  then show ?thesis
  proof
    assume l: "largest_in near256 sz e"
    then have "e \<in> near256" by (simp add: largest_in_def)
    then have "0 < e" by (rule near256_pos)
    with l show ?thesis by (simp add: largest_in_def)
  next
    assume "largest_in {1..255} sz e"
    then show ?thesis by (simp add: largest_in_def)
  qed
qed

text \<open>
  Claim C4. \<open>_get_fast_ew_dims(size)\<close> returns \<open>(shape, strides)\<close> with
  \<open>shape = (size // e, e)\<close>, where \<open>e\<close> is the largest of 256, 224, ..., 32 that
  divides \<open>size\<close> if one of them does, and otherwise the largest divisor of \<open>size\<close> among
  1, ..., 255 (one exists, since 1 divides every size, so the division never fails);
  and \<open>shape[0] * shape[1] = size\<close>. It holds for every integer \<open>size\<close>, the positive ones
  of the claim among them.
\<close>

theorem get_fast_ew_dims_shape:
  "\<exists>e. chosen_ew sz e \<and>
       get_fast_ew_dims contiguous_strides sz =
         Inr ((sz div e, e), contiguous_strides (sz div e, e)) \<and>
       (sz div e) * e = sz"
proof -
  let ?e = "fast_ew_size sz"
  have c: "chosen_ew sz ?e" by (rule fast_ew_size_chosen)
  then have "0 < ?e \<and> sz mod ?e = 0" by (rule chosen_ew_pos)
  then have p: "0 < ?e" "sz mod ?e = 0" by simp_all
  have "get_fast_ew_dims contiguous_strides sz =
         Inr ((sz div ?e, ?e), contiguous_strides (sz div ?e, ?e))"
    using p(1) by (simp add: get_fast_ew_dims_def Let_def)
  moreover have "(sz div ?e) * ?e = sz" using p(2) by (simp add: mod_0_imp_dvd)
  ultimately have "chosen_ew sz ?e \<and>
       get_fast_ew_dims contiguous_strides sz =
         Inr ((sz div ?e, ?e), contiguous_strides (sz div ?e, ?e)) \<and>
       (sz div ?e) * ?e = sz" using c by simp
  then show ?thesis by (rule exI)
qed


theorem get_fast_ew_dims_shape_witness:
  "chosen_ew 1000 250 \<and>
   get_fast_ew_dims (\<lambda>(r, c). (c, 1)) 1000 = Inr ((4, 250), (250, 1))"
proof -
  have ev: "get_fast_ew_dims (\<lambda>(r, c). (c, 1)) 1000 = Inr ((4, 250), (250, 1))"
    by (simp add: get_fast_ew_dims_def fast_ew_size_def scan32_miss scan32_le0
        scan1_miss scan1_hit)
  from get_fast_ew_dims_shape [of 1000 "\<lambda>(r, c). (c, 1)"]
  obtain e where e: "chosen_ew 1000 e"
    "get_fast_ew_dims (\<lambda>(r, c). (c, 1)) 1000 =
       Inr ((1000 div e, e), (\<lambda>(r, c). (c, 1)) (1000 div e, e))"
    by (elim exE conjE)
  from e(2) ev have "e = 250" by simp
  with e(1) ev show ?thesis by simp
qed

subsection \<open>Malformed postfix streams\<close>

text \<open>
  The stack discipline of a postfix stream, by itself: the number of operands an argument
  takes from the stack, and the depth of the stack after a stream, \<open>None\<close> when an
  operator finds fewer operands than it takes.
\<close>

definition operands_used :: "type_arg \<Rightarrow> nat" where
  "operands_used arg =
     (case arg of
        OpArg name cnt extra \<Rightarrow>
          (case float_ops name of
             Some numops \<Rightarrow> numops
           | None \<Rightarrow> if name \<in> set reduction_ops then 1 else 0)
      | _ \<Rightarrow> 0)"

fun stack_depth :: "type_arg list \<Rightarrow> nat \<Rightarrow> nat option" where
  "stack_depth [] d = Some d"
| "stack_depth (arg # args) d =
     (if operands_used arg > d then None
      else stack_depth args (d - operands_used arg + 1))"

lemma pop_operands_underflow:
  "length stack < n \<Longrightarrow> pop_operands n h nd stack = Inl IndexError"
  by (induction n h nd stack rule: pop_operands.induct) simp_all

lemma pop_operands_ok:
  "n \<le> length stack \<Longrightarrow>
   \<exists>nd'. pop_operands n h nd stack = Inr (nd', drop n stack)"
  by (induction n h nd stack rule: pop_operands.induct) simp_all

lemma build_step_underflow:
  "operands_used arg > length stack \<Longrightarrow> build_step arg (h, stack) = Inl IndexError"
  by (cases arg)
     (auto simp: build_step_def operands_used_def pop_operands_underflow
           split: option.splits list.splits if_splits)

lemma build_step_ok:
  assumes "operands_used arg \<le> length stack"
  shows "\<exists>h' stack'. build_step arg (h, stack) = Inr (h', stack') \<and>
           length stack' = length stack - operands_used arg + 1"
proof (cases arg)
  case (OpArg name cnt extra)
  show ?thesis
  proof (cases "float_ops name")
    case (Some numops)
    with assms OpArg have "numops \<le> length stack" by (simp add: operands_used_def)
    from pop_operands_ok[OF this] obtain nd' where
      "pop_operands numops h \<lparr>n_arg = arg, n_scalar = (numops > 0), n_red = 0, n_kids = []\<rparr> stack
         = Inr (nd', drop numops stack)" by blast
    with OpArg Some \<open>numops \<le> length stack\<close> show ?thesis
      by (simp add: build_step_def operands_used_def)
  next
    case None
    with assms OpArg show ?thesis
      by (cases stack) (auto simp: build_step_def operands_used_def Let_def)
  qed
qed (simp_all add: build_step_def operands_used_def)

lemma build_loop_depth:
  "(stack_depth args (length stack) = None \<longrightarrow> build_loop args (h, stack) = Inl IndexError) \<and>
   (\<forall>d. stack_depth args (length stack) = Some d \<longrightarrow>
        (\<exists>h' stack'. build_loop args (h, stack) = Inr (h', stack') \<and> length stack' = d))"
proof (induction args arbitrary: h stack)
  case Nil
  show ?case by simp
next
  case (Cons arg args)
  show ?case
  proof (cases "operands_used arg > length stack")
    case True
    then show ?thesis by (simp add: build_step_underflow)
  next
    case False
    then have le: "operands_used arg \<le> length stack" by simp
    from build_step_ok[OF le, of h] obtain h' stack' where
      st: "build_step arg (h, stack) = Inr (h', stack')"
        "length stack' = length stack - operands_used arg + 1" by blast
    from Cons.IH[of stack' h'] st False show ?thesis by simp
  qed
qed


lemma build_tree_underflow:
  "stack_depth targs 0 = None \<Longrightarrow> build_tree targs = Inl IndexError"
  using build_loop_depth[of targs "[]" "[]"] by (simp add: build_tree_def)

lemma get_compound_kernel_build_error:
  assumes "build_tree targs = Inl e" and "cache dev targs = None"
  shows "get_compound_kernel SourceModule targs dev = Some (Inl e, dev)"
  using assms by (simp add: get_compound_kernel_def compound_kernel_def all_stages_def)

lemma pop_operands_base:
  "n \<le> length stk \<Longrightarrow> pop_operands n h nd stk = Inr (nd', stk') \<Longrightarrow>
   pop_operands n h nd (stk @ base) = Inr (nd', stk' @ base)"
  by (induction n h nd stk rule: pop_operands.induct) simp_all

lemma build_step_base:
  assumes "operands_used arg \<le> length stk" and "build_step arg (h, stk) = Inr (h', stk')"
  shows "build_step arg (h, stk @ base) = Inr (h', stk' @ base)"
proof (cases arg)
  case (OpArg name cnt extra)
  show ?thesis
  proof (cases "float_ops name")
    case (Some numops)
    with assms(1) OpArg have le: "numops \<le> length stk" by (simp add: operands_used_def)
    from assms(2) OpArg Some obtain nd rest where
      p: "pop_operands numops h \<lparr>n_arg = arg, n_scalar = (numops > 0), n_red = 0, n_kids = []\<rparr> stk
            = Inr (nd, rest)"
      and r: "h' = h @ [nd]" "stk' = Ref (length h) # rest"
      by (auto simp: build_step_def split: sum.splits)
    from pop_operands_base[OF le p, of base] OpArg Some r show ?thesis
      by (simp add: build_step_def)
  next
    case None
    with assms OpArg show ?thesis
      by (cases stk) (auto simp: build_step_def operands_used_def Let_def split: if_splits)
  qed
next
  case (TensorArg indx dt tk)
  with assms(2) show ?thesis by (auto simp: build_step_def)
next
  case (FloatArg indx)
  with assms(2) show ?thesis by (auto simp: build_step_def)
qed

lemma build_step_extends:
  "build_step arg (h, stk) = Inr (h', stk') \<Longrightarrow> \<exists>h1. h' = h @ h1"
  by (cases arg)
     (auto simp: build_step_def Let_def split: option.splits sum.splits if_splits list.splits)

lemma build_loop_base:
  "stack_depth targs (length stk) = Some d \<Longrightarrow>
   \<exists>h1 stk'. build_loop targs (h, stk) = Inr (h @ h1, stk') \<and> length stk' = d \<and>
             build_loop targs (h, stk @ base) = Inr (h @ h1, stk' @ base)"
proof (induction targs arbitrary: h stk)
  case Nil
  then show ?case by simp
next
  case (Cons arg targs)
  from Cons.prems have le: "operands_used arg \<le> length stk"
    and rest: "stack_depth targs (length stk - operands_used arg + 1) = Some d"
    by (auto split: if_splits)
  from build_step_ok[OF le, of h] obtain h' stk1 where
    st: "build_step arg (h, stk) = Inr (h', stk1)"
      "length stk1 = length stk - operands_used arg + 1" by blast
  from build_step_extends[OF st(1)] obtain h0 where h0: "h' = h @ h0" ..
  from build_step_base[OF le st(1), of base] have sb:
    "build_step arg (h, stk @ base) = Inr (h', stk1 @ base)" .
  from rest st(2) have "stack_depth targs (length stk1) = Some d" by simp
  from Cons.IH[OF this, of h'] obtain h1 stk' where
    ih: "build_loop targs (h', stk1) = Inr (h' @ h1, stk')" "length stk' = d"
        "build_loop targs (h', stk1 @ base) = Inr (h' @ h1, stk' @ base)" by blast
  have "build_loop (arg # targs) (h, stk) = Inr (h @ (h0 @ h1), stk') \<and> length stk' = d \<and>
        build_loop (arg # targs) (h, stk @ base) = Inr (h @ (h0 @ h1), stk' @ base)"
    using st(1) sb ih h0 by simp
  then show ?case by blast
qed

lemma build_loop_append:
  "build_loop (xs @ ys) hs =
     (case build_loop xs hs of Inl e \<Rightarrow> Inl e | Inr hs' \<Rightarrow> build_loop ys hs')"
  by (induction xs arbitrary: hs) (auto split: sum.splits)

lemma build_tree_prefix:
  assumes pre: "build_tree pre = Inr (h, rt)" and one: "stack_depth pre 0 = Some 1"
    and post: "stack_depth post 0 = Some d"
  shows "\<exists>h1. build_tree (pre @ post) = Inr (h @ h1, rt)"
proof -
  from build_loop_depth[of pre "[]" "[]"] one obtain h0 stk0 where
    l0: "build_loop pre ([], []) = Inr (h0, stk0)" "length stk0 = 1" by auto
  then obtain b where b: "stk0 = [b]" by (cases stk0) auto
  from pre l0(1) b have hb: "h0 = h" "b = rt" by (simp_all add: build_tree_def)
  from post have "stack_depth post (length ([]::operand list)) = Some d" by simp
  from build_loop_base[OF this, of h "[rt]"] obtain h1 stk' where
    l1: "build_loop post (h, [] @ [rt]) = Inr (h @ h1, stk' @ [rt])" by blast
  have "build_loop (pre @ post) ([], []) = Inr (h @ h1, stk' @ [rt])"
    using l0(1) b hb l1 by (simp add: build_loop_append)
  then have "build_tree (pre @ post) = Inr (h @ h1, rt)" by (simp add: build_tree_def)
  then show ?thesis ..
qed

text \<open>
  Claim C6, as amended. A stream in which an operator takes more operands than the stack
  holds makes \<open>_build_tree\<close> fail (\<open>pop\<close> raises IndexError), and
  \<open>_get_compound_kernel\<close> then registers no kernel. A stream that leaves one entry or
  more on the stack does not fail: \<open>_build_tree\<close> returns the bottom entry of the stack as
  the loop leaves it (the last element of the model's stack, whose head is the top), and
  what lies above is dropped. So when a stream that leaves exactly one entry is followed
  by tokens that leave entries of their own, the tree returned is still the one of the
  first stream.
\<close>

theorem build_tree_malformed:
  "(stack_depth targs 0 = None \<longrightarrow>
      build_tree targs = Inl IndexError \<and>
      (cache dev targs = None \<longrightarrow>
         get_compound_kernel SourceModule targs dev = Some (Inl IndexError, dev))) \<and>
   (\<forall>d. stack_depth targs 0 = Some d \<and> 1 \<le> d \<longrightarrow>
      (\<exists>h stk. build_loop targs ([], []) = Inr (h, stk) \<and> length stk = d \<and>
                build_tree targs = Inr (h, last stk))) \<and>
   (\<forall>pre post h rt d.
      targs = pre @ post \<and> build_tree pre = Inr (h, rt) \<and> stack_depth pre 0 = Some 1 \<and>
      stack_depth post 0 = Some d \<longrightarrow>
      (\<exists>h1. build_tree targs = Inr (h @ h1, rt)))"
proof (intro conjI impI allI)
  assume "stack_depth targs 0 = None"
  then show u: "build_tree targs = Inl IndexError" by (rule build_tree_underflow)
  assume "cache dev targs = None"
  with u show "get_compound_kernel SourceModule targs dev = Some (Inl IndexError, dev)"
    by (rule get_compound_kernel_build_error)
next
  fix d assume d: "stack_depth targs 0 = Some d \<and> 1 \<le> d"
  with build_loop_depth[of targs "[]" "[]"] obtain h stk where
    l: "build_loop targs ([], []) = Inr (h, stk)" "length stk = d" by auto
  with d have "build_tree targs = Inr (h, last stk)" by (auto simp: build_tree_def)
  with l show "\<exists>h stk. build_loop targs ([], []) = Inr (h, stk) \<and> length stk = d \<and>
                build_tree targs = Inr (h, last stk)" by blast
next
  fix pre post h rt d
  assume a: "targs = pre @ post \<and> build_tree pre = Inr (h, rt) \<and> stack_depth pre 0 = Some 1 \<and>
      stack_depth post 0 = Some d"
  then have "\<exists>h1. build_tree (pre @ post) = Inr (h @ h1, rt)"
    by (intro build_tree_prefix[of pre h rt post d]) simp_all
  with a show "\<exists>h1. build_tree targs = Inr (h @ h1, rt)" by simp
qed

definition underflow_example :: "type_arg list" where
  "underflow_example = [TensorArg 0 ''f4'' 0, OpArg ''add'' 0 NoExtra]"

definition leftover_example :: "type_arg list" where
  "leftover_example =
     [TensorArg 0 ''f4'' 0, TensorArg 1 ''f4'' 0, TensorArg 2 ''f4'' 0,
      OpArg ''assign'' 0 (Rounding False 32)]"

lemma split_stages_Arg: "split_stages (Arg x) st = Some st"
  by (subst split_stages.simps) simp

lemma post_order_Arg: "post_order h (Arg x) stk = Some (stk @ [x])"
  by (subst post_order.simps) simp

lemma build_leftover_example:
  "build_tree leftover_example =
     Inr ([\<lparr>n_arg = OpArg ''assign'' 0 (Rounding False 32), n_scalar = False, n_red = 0,
            n_kids = [Arg (TensorArg 1 ''f4'' 0), Arg (TensorArg 2 ''f4'' 0)]\<rparr>],
          Arg (TensorArg 0 ''f4'' 0))"
  by (simp add: leftover_example_def build_tree_def build_step_def float_ops_def
      add_operand_def numeral_2_eq_2)

theorem build_tree_malformed_witness:
  "stack_depth underflow_example 0 = None \<and>
   build_tree underflow_example = Inl IndexError \<and>
   get_compound_kernel (\<lambda>t. True) underflow_example \<lparr>cache = Map.empty, compiled = 0\<rparr>
     = Some (Inl IndexError, \<lparr>cache = Map.empty, compiled = 0\<rparr>) \<and>
   stack_depth leftover_example 0 = Some 2 \<and>
   (\<exists>h stk. build_loop leftover_example ([], []) = Inr (h, stk) \<and> length stk = 2 \<and>
      last stk = Arg (TensorArg 0 ''f4'' 0) \<and> hd stk \<noteq> last stk \<and>
      build_tree leftover_example = Inr (h, last stk)) \<and>
   (\<exists>h1. build_tree ([TensorArg 0 ''f4'' 0] @
            [TensorArg 1 ''f4'' 0, TensorArg 2 ''f4'' 0, OpArg ''assign'' 0 (Rounding False 32)])
          = Inr ([] @ h1, Arg (TensorArg 0 ''f4'' 0)))"
proof -
  let ?dev = "\<lparr>cache = Map.empty, compiled = 0\<rparr>"
  let ?pre = "[TensorArg 0 ''f4'' 0]"
  let ?post = "[TensorArg 1 ''f4'' 0, TensorArg 2 ''f4'' 0, OpArg ''assign'' 0 (Rounding False 32)]"
  have u: "stack_depth underflow_example 0 = None"
    by (simp add: underflow_example_def operands_used_def float_ops_def)
  have l: "stack_depth leftover_example 0 = Some 2"
    by (simp add: leftover_example_def operands_used_def float_ops_def)
  note m1 = build_tree_malformed[of underflow_example ?dev "\<lambda>t. True"]
  note m2 = build_tree_malformed[of leftover_example ?dev "\<lambda>t. True"]
  from m1 u have p1: "build_tree underflow_example = Inl IndexError"
    "get_compound_kernel (\<lambda>t. True) underflow_example ?dev = Some (Inl IndexError, ?dev)"
    by simp_all
  from m2 l obtain h stk where b: "build_loop leftover_example ([], []) = Inr (h, stk)"
    "length stk = 2" "build_tree leftover_example = Inr (h, last stk)" by auto
  from b(3) build_leftover_example have la: "last stk = Arg (TensorArg 0 ''f4'' 0)" by simp
  have "build_loop leftover_example ([], []) =
     Inr ([\<lparr>n_arg = OpArg ''assign'' 0 (Rounding False 32), n_scalar = False, n_red = 0,
            n_kids = [Arg (TensorArg 1 ''f4'' 0), Arg (TensorArg 2 ''f4'' 0)]\<rparr>],
          [Ref 0, Arg (TensorArg 0 ''f4'' 0)])"
    by (simp add: leftover_example_def build_step_def float_ops_def add_operand_def
        numeral_2_eq_2)
  with b(1) have "stk = [Ref 0, Arg (TensorArg 0 ''f4'' 0)]" by simp
  then have hl: "hd stk \<noteq> last stk" by simp
  have pre: "build_tree ?pre = Inr ([], Arg (TensorArg 0 ''f4'' 0))"
    by (simp add: build_tree_def build_step_def)
  have d1: "stack_depth ?pre 0 = Some 1" by (simp add: operands_used_def)
  have d2: "stack_depth ?post 0 = Some 1" by (simp add: operands_used_def float_ops_def)
  from m2 have "\<forall>pre post h rt d.
      leftover_example = pre @ post \<and> build_tree pre = Inr (h, rt) \<and> stack_depth pre 0 = Some 1 \<and>
      stack_depth post 0 = Some d \<longrightarrow>
      (\<exists>h1. build_tree leftover_example = Inr (h @ h1, rt))" by simp
  then have "leftover_example = ?pre @ ?post \<and> build_tree ?pre = Inr ([], Arg (TensorArg 0 ''f4'' 0)) \<and>
      stack_depth ?pre 0 = Some 1 \<and> stack_depth ?post 0 = Some 1 \<longrightarrow>
      (\<exists>h1. build_tree leftover_example = Inr ([] @ h1, Arg (TensorArg 0 ''f4'' 0)))" by blast
  with pre d1 d2 have "\<exists>h1. build_tree leftover_example = Inr ([] @ h1, Arg (TensorArg 0 ''f4'' 0))"
    by (simp add: leftover_example_def)
  then have px: "\<exists>h1. build_tree (?pre @ ?post) = Inr ([] @ h1, Arg (TensorArg 0 ''f4'' 0))"
    by (simp add: leftover_example_def)
  from u l p1 b la hl px show ?thesis by blast
qed

text \<open>
  The claim as stated fails for leftover operands: the stream \<open>C, A, B, assign\<close> ends
  with two entries on the stack, and \<open>_build_tree\<close> raises nothing: it returns the bottom
  one, the leaf \<open>C\<close>, and the stage splitter goes on with it.
\<close>

theorem leftover_operands_counterexample:
  "stack_depth leftover_example 0 = Some 2 \<and>
   build_tree leftover_example =
     Inr ([\<lparr>n_arg = OpArg ''assign'' 0 (Rounding False 32), n_scalar = False, n_red = 0,
            n_kids = [Arg (TensorArg 1 ''f4'' 0), Arg (TensorArg 2 ''f4'' 0)]\<rparr>],
          Arg (TensorArg 0 ''f4'' 0)) \<and>
   all_stages leftover_example = Some (Inr [(''ew_out'', [TensorArg 0 ''f4'' 0])])"
proof -
  have l: "stack_depth leftover_example 0 = Some 2"
    by (simp add: leftover_example_def operands_used_def float_ops_def)
  note b = build_leftover_example
  have s: "all_stages leftover_example = Some (Inr [(''ew_out'', [TensorArg 0 ''f4'' 0])])"
    by (simp add: all_stages_def b split_stages_Arg post_order_Arg init_state_def
        last_stage_type_def)
  from l b s show ?thesis by simp
qed

subsection \<open>The tree a store holds\<close>

text \<open>
  The nodes below a reference, read off the store as a value. \<open>_build_tree\<close> creates a
  node after its children, so a child that is a reference lies below its parent in the
  store (\<open>heap_ok\<close>); the function reads the children that do.
\<close>

datatype tree = Leaf type_arg | Node type_arg bool int "tree list"

definition kid_below :: "nat \<Rightarrow> operand \<Rightarrow> bool" where
  "kid_below a c = (case c of Ref b \<Rightarrow> b < a | Arg x \<Rightarrow> True)"

function tree_of :: "heap \<Rightarrow> operand \<Rightarrow> tree" where
  "tree_of h (Arg x) = Leaf x"
| "tree_of h (Ref a) =
     Node (n_arg (h ! a)) (n_scalar (h ! a)) (n_red (h ! a))
       (map (tree_of h) (filter (kid_below a) (n_kids (h ! a))))"
  by pat_completeness auto
termination
  by (relation "measure (\<lambda>(h, c). case c of Arg x \<Rightarrow> 0 | Ref a \<Rightarrow> Suc a)")
     (auto simp: kid_below_def split: operand.splits)

definition heap_ok :: "heap \<Rightarrow> bool" where
  "heap_ok h \<longleftrightarrow> (\<forall>a < length h. \<forall>c \<in> set (n_kids (h ! a)). kid_below a c)"

subsection \<open>The annotations of \<open>_build_tree\<close>\<close>

text \<open>The number of reduction operations in a tree, and in the subtrees of its rt.\<close>

fun reductions_in :: "tree \<Rightarrow> int" where
  "reductions_in (Leaf x) = 0"
| "reductions_in (Node arg sc red ts) =
     (if is_reduction arg then 1 else 0) + sum_list (map reductions_in ts)"

fun reductions_beneath :: "tree \<Rightarrow> int" where
  "reductions_beneath (Leaf x) = 0"
| "reductions_beneath (Node arg sc red ts) = sum_list (map reductions_in ts)"

fun red_counts_ok :: "tree \<Rightarrow> bool" where
  "red_counts_ok (Leaf x) = True"
| "red_counts_ok (Node arg sc red ts) =
     (red = reductions_in (Node arg sc red ts) \<and> list_all red_counts_ok ts)"

text \<open>
  Scalar-ness: a tensor leaf is scalar only in slot 0, every other leaf is scalar, a node
  is as scalar as its flag says.
\<close>

fun scalar_of :: "tree \<Rightarrow> bool" where
  "scalar_of (Leaf (TensorArg indx dt take_axis)) = (indx = 0)"
| "scalar_of (Leaf x) = True"
| "scalar_of (Node arg sc red ts) = sc"

fun scalar_flags_ok :: "tree \<Rightarrow> bool" where
  "scalar_flags_ok (Leaf x) = True"
| "scalar_flags_ok (Node arg sc red ts) =
     (sc = (if is_reduction arg then True else ts \<noteq> [] \<and> list_all scalar_of ts) \<and>
      list_all scalar_flags_ok ts)"

text \<open>The invariant of the loop of \<open>_build_tree\<close>, node by node.\<close>

definition red_of :: "heap \<Rightarrow> operand \<Rightarrow> int" where
  "red_of h c = (case c of Ref b \<Rightarrow> n_red (h ! b) | Arg x \<Rightarrow> 0)"

definition scalar_operand :: "heap \<Rightarrow> operand \<Rightarrow> bool" where
  "scalar_operand h c =
     (case c of Ref b \<Rightarrow> n_scalar (h ! b)
              | Arg x \<Rightarrow> \<not> (arg_type x = GPUTensor_class \<and> arg_id x > 0))"

definition node_ok :: "heap \<Rightarrow> nat \<Rightarrow> bool" where
  "node_ok h a \<longleftrightarrow>
     (\<forall>c \<in> set (n_kids (h ! a)). kid_below a c) \<and>
     n_red (h ! a) = (if is_reduction (n_arg (h ! a)) then 1 else 0)
                       + sum_list (map (red_of h) (n_kids (h ! a))) \<and>
     n_scalar (h ! a) = (if is_reduction (n_arg (h ! a)) then True
                         else n_kids (h ! a) \<noteq> [] \<and> list_all (scalar_operand h) (n_kids (h ! a)))"

definition build_inv :: "heap \<times> operand list \<Rightarrow> bool" where
  "build_inv hs \<longleftrightarrow>
     (\<forall>a < length (fst hs). node_ok (fst hs) a) \<and>
     (\<forall>c \<in> set (snd hs). kid_below (length (fst hs)) c)"

lemma pop_operands_spec:
  "pop_operands n h nd stk = Inr (nd', stk') \<Longrightarrow>
   \<exists>ops. stk = ops @ stk' \<and> length ops = n \<and> n_kids nd' = rev ops @ n_kids nd \<and>
         n_arg nd' = n_arg nd \<and>
         n_red nd' = n_red nd + sum_list (map (red_of h) ops) \<and>
         n_scalar nd' = (n_scalar nd \<and> list_all (scalar_operand h) ops)"
proof (induction n h nd stk rule: pop_operands.induct)
  case (1 h nd stk)
  then show ?case by simp
next
  case (2 i h nd)
  then show ?case by simp
next
  case (3 i h nd operand stk)
  from 3 obtain ops where o: "stk = ops @ stk'" "length ops = i"
    "n_kids nd' = rev ops @ n_kids (add_operand h nd operand)"
    "n_arg nd' = n_arg (add_operand h nd operand)"
    "n_red nd' = n_red (add_operand h nd operand) + sum_list (map (red_of h) ops)"
    "n_scalar nd' = (n_scalar (add_operand h nd operand) \<and> list_all (scalar_operand h) ops)"
    by auto
  have a: "n_kids (add_operand h nd operand) = operand # n_kids nd"
    "n_arg (add_operand h nd operand) = n_arg nd"
    "n_red (add_operand h nd operand) = n_red nd + red_of h operand"
    "n_scalar (add_operand h nd operand) = (n_scalar nd \<and> scalar_operand h operand)"
    by (auto simp: add_operand_def Let_def red_of_def scalar_operand_def split: operand.splits)
  have "operand # stk = (operand # ops) @ stk' \<and> length (operand # ops) = Suc i \<and>
        n_kids nd' = rev (operand # ops) @ n_kids nd \<and> n_arg nd' = n_arg nd \<and>
        n_red nd' = n_red nd + sum_list (map (red_of h) (operand # ops)) \<and>
        n_scalar nd' = (n_scalar nd \<and> list_all (scalar_operand h) (operand # ops))"
    using o a by auto
  then show ?case by blast
qed

lemma float_op_not_reduction: "float_ops name = Some n \<Longrightarrow> name \<notin> set reduction_ops"
  by (auto simp: float_ops_def reduction_ops_def split: if_splits)

lemma red_of_append:
  "kid_below (length h) c \<Longrightarrow> red_of (h @ [nd]) c = red_of h c"
  by (auto simp: red_of_def kid_below_def nth_append split: operand.splits)

lemma scalar_operand_append:
  "kid_below (length h) c \<Longrightarrow> scalar_operand (h @ [nd]) c = scalar_operand h c"
  by (auto simp: scalar_operand_def kid_below_def nth_append split: operand.splits)

lemma kid_below_mono: "kid_below a c \<Longrightarrow> a \<le> b \<Longrightarrow> kid_below b c"
  by (auto simp: kid_below_def split: operand.splits)

lemma node_ok_append:
  assumes "node_ok h a" and "a < length h"
  shows "node_ok (h @ [nd]) a"
proof -
  from assms have kb: "\<forall>c \<in> set (n_kids (h ! a)). kid_below (length h) c"
    by (auto simp: node_ok_def intro: kid_below_mono)
  then have "sum_list (map (red_of (h @ [nd])) (n_kids (h ! a)))
      = sum_list (map (red_of h) (n_kids (h ! a)))"
    by (intro arg_cong[where f = sum_list] map_cong) (simp_all add: red_of_append)
  moreover from kb have "list_all (scalar_operand (h @ [nd])) (n_kids (h ! a))
      = list_all (scalar_operand h) (n_kids (h ! a))"
    by (simp add: list_all_iff scalar_operand_append)
  ultimately show ?thesis using assms by (simp add: node_ok_def nth_append)
qed

lemma build_inv_push:
  assumes inv: "build_inv (h, stk)" and new: "node_ok (h @ [nd]) (length h)"
    and rest: "set stk' \<subseteq> set stk"
  shows "build_inv (h @ [nd], Ref (length h) # stk')"
proof -
  have "\<forall>a < length (h @ [nd]). node_ok (h @ [nd]) a"
  proof (intro allI impI)
    fix a assume "a < length (h @ [nd])"
    then have "a < length h \<or> a = length h" by auto
    then show "node_ok (h @ [nd]) a"
      using inv new by (auto simp: build_inv_def intro: node_ok_append)
  qed
  moreover have "\<forall>c \<in> set (Ref (length h) # stk'). kid_below (length (h @ [nd])) c"
  proof
    fix c assume "c \<in> set (Ref (length h) # stk')"
    then have "c = Ref (length h) \<or> c \<in> set stk" using rest by auto
    then show "kid_below (length (h @ [nd])) c"
    proof
      assume "c = Ref (length h)" then show ?thesis by (simp add: kid_below_def)
    next
      assume "c \<in> set stk"
      with inv have "kid_below (length h) c" by (simp add: build_inv_def)
      then show ?thesis by (rule kid_below_mono) simp
    qed
  qed
  ultimately show ?thesis by (simp add: build_inv_def)
qed

lemma node_ok_new:
  assumes kb: "\<forall>c \<in> set kids. kid_below (length h) c"
    and r: "red = (if is_reduction arg then 1 else 0) + sum_list (map (red_of h) kids)"
    and s: "sc = (if is_reduction arg then True else kids \<noteq> [] \<and> list_all (scalar_operand h) kids)"
  shows "node_ok (h @ [\<lparr>n_arg = arg, n_scalar = sc, n_red = red, n_kids = kids\<rparr>]) (length h)"
proof -
  define nd where "nd = \<lparr>n_arg = arg, n_scalar = sc, n_red = red, n_kids = kids\<rparr>"
  have nth: "(h @ [nd]) ! length h = nd" by simp
  have f: "n_arg nd = arg" "n_scalar nd = sc" "n_red nd = red" "n_kids nd = kids"
    by (simp_all add: nd_def)
  from kb have sumeq: "sum_list (map (red_of (h @ [nd])) kids) = sum_list (map (red_of h) kids)"
    by (intro arg_cong[where f = sum_list] map_cong) (simp_all add: red_of_append)
  from kb have alleq: "list_all (scalar_operand (h @ [nd])) kids = list_all (scalar_operand h) kids"
    by (simp add: list_all_iff scalar_operand_append)
  have "node_ok (h @ [nd]) (length h)"
    unfolding node_ok_def nth f sumeq alleq using kb r s by simp
  then show ?thesis by (simp add: nd_def)
qed

lemma build_step_inv:
  assumes inv: "build_inv (h, stk)" and step: "build_step arg (h, stk) = Inr (h', stk')"
  shows "build_inv (h', stk')"
proof (cases arg)
  case (OpArg name cnt extra)
  show ?thesis
  proof (cases "float_ops name")
    case (Some numops)
    let ?nd0 = "\<lparr>n_arg = arg, n_scalar = (numops > 0), n_red = 0, n_kids = []\<rparr>"
    from step OpArg Some obtain nd rest where
      p: "pop_operands numops h ?nd0 stk = Inr (nd, rest)"
      and h': "h' = h @ [nd]" and s': "stk' = Ref (length h) # rest"
      by (auto simp: build_step_def split: sum.splits)
    from pop_operands_spec[OF p] obtain ops where o: "stk = ops @ rest" "length ops = numops"
      "n_kids nd = rev ops" "n_arg nd = arg"
      "n_red nd = sum_list (map (red_of h) ops)"
      "n_scalar nd = (numops > 0 \<and> list_all (scalar_operand h) ops)" by auto
    have nr: "\<not> is_reduction arg"
      using OpArg Some float_op_not_reduction[of name numops] by (simp add: is_reduction_def)
    have eq: "nd = \<lparr>n_arg = arg, n_scalar = n_scalar nd, n_red = n_red nd, n_kids = rev ops\<rparr>"
      using o by (cases nd) simp
    have kb: "\<forall>c \<in> set (rev ops). kid_below (length h) c"
      using inv o(1) by (auto simp: build_inv_def)
    have "node_ok (h @ [\<lparr>n_arg = arg, n_scalar = n_scalar nd, n_red = n_red nd, n_kids = rev ops\<rparr>]) (length h)"
    proof (rule node_ok_new[OF kb])
      show "n_red nd = (if is_reduction arg then 1 else 0) + sum_list (map (red_of h) (rev ops))"
        using nr o(5) by (simp add: rev_map[symmetric])
      show "n_scalar nd = (if is_reduction arg then True
              else rev ops \<noteq> [] \<and> list_all (scalar_operand h) (rev ops))"
        using nr o(2,6) by (auto simp: list_all_iff)
    qed
    with eq have "node_ok (h @ [nd]) (length h)" by simp
    moreover have "set rest \<subseteq> set stk" using o(1) by auto
    ultimately show ?thesis unfolding h' s' using inv by (intro build_inv_push) auto
  next
    case None
    show ?thesis
    proof (cases "name \<in> set reduction_ops")
      case True
      with step OpArg None obtain operand rest where
        stk: "stk = operand # rest"
        and h': "h' = h @ [\<lparr>n_arg = arg, n_scalar = True,
                             n_red = 1 + red_of h operand, n_kids = [operand]\<rparr>]"
        and s': "stk' = Ref (length h) # rest"
        by (auto simp: build_step_def Let_def red_of_def split: list.splits)
      have ir: "is_reduction arg" using OpArg True by (simp add: is_reduction_def)
      have kb: "\<forall>c \<in> set [operand]. kid_below (length h) c"
        using inv stk by (auto simp: build_inv_def)
      have "node_ok (h @ [\<lparr>n_arg = arg, n_scalar = True,
                             n_red = 1 + red_of h operand, n_kids = [operand]\<rparr>]) (length h)"
        by (rule node_ok_new[OF kb]) (use ir in simp_all)
      moreover have "set rest \<subseteq> set stk" using stk by auto
      ultimately show ?thesis unfolding h' s' using inv by (intro build_inv_push) auto
    next
      case False
      with step OpArg None have "h' = h" "stk' = Arg arg # stk"
        by (auto simp: build_step_def)
      with inv show ?thesis by (auto simp: build_inv_def kid_below_def)
    qed
  qed
next
  case (TensorArg indx dt tk)
  with step have "h' = h" "stk' = Arg arg # stk" by (auto simp: build_step_def)
  with inv show ?thesis by (auto simp: build_inv_def kid_below_def)
next
  case (FloatArg indx)
  with step have "h' = h" "stk' = Arg arg # stk" by (auto simp: build_step_def)
  with inv show ?thesis by (auto simp: build_inv_def kid_below_def)
qed

lemma build_loop_inv:
  "build_inv hs \<Longrightarrow> build_loop targs hs = Inr hs' \<Longrightarrow> build_inv hs'"
proof (induction targs arbitrary: hs)
  case Nil
  then show ?case by simp
next
  case (Cons arg targs)
  obtain h stk where hs: "hs = (h, stk)" by (cases hs)
  from Cons.prems(2) obtain hs1 where s: "build_step arg hs = Inr hs1"
    and l: "build_loop targs hs1 = Inr hs'" by (auto split: sum.splits)
  obtain h1 stk1 where hs1: "hs1 = (h1, stk1)" by (cases hs1)
  from build_step_inv[of h stk arg h1 stk1] Cons.prems(1) s hs hs1
  have "build_inv hs1" by simp
  from Cons.IH[OF this l] show ?case .
qed

lemma build_tree_inv:
  assumes "build_tree targs = Inr (h, rt)"
  shows "(\<forall>a < length h. node_ok h a) \<and> kid_below (length h) rt"
proof -
  from assms obtain stk where l: "build_loop targs ([], []) = Inr (h, stk)"
    and r: "stk \<noteq> []" "rt = last stk"
    by (auto simp: build_tree_def split: sum.splits if_splits)
  have "build_inv ([], [])" by (simp add: build_inv_def)
  from build_loop_inv[OF this l] r show ?thesis by (auto simp: build_inv_def)
qed


lemma scalar_of_Leaf: "scalar_of (Leaf x) = scalar_operand h (Arg x)"
  by (cases x) (simp_all add: scalar_operand_def)

lemma tree_of_annotations:
  "\<forall>a < length h. node_ok h a \<Longrightarrow> kid_below (length h) c \<Longrightarrow>
         reductions_in (tree_of h c) = red_of h c \<and> red_counts_ok (tree_of h c) \<and>
         scalar_of (tree_of h c) = scalar_operand h c \<and> scalar_flags_ok (tree_of h c)"
proof (induction h c rule: tree_of.induct)
  case (1 h x)
  show ?case using scalar_of_Leaf[of x h] by (simp add: red_of_def)
next
  case (2 h a)
  from "2.prems" have ok: "\<forall>a < length h. node_ok h a" by simp
  from "2.prems" have a: "a < length h" by (simp add: kid_below_def)
  with ok have n: "node_ok h a" by simp
  let ?kids = "n_kids (h ! a)"
  from n have kb: "\<forall>c \<in> set ?kids. kid_below a c" by (simp add: node_ok_def)
  then have filt: "filter (kid_below a) ?kids = ?kids" by (simp add: filter_id_conv)
  have ih: "\<forall>c \<in> set ?kids.
         reductions_in (tree_of h c) = red_of h c \<and> red_counts_ok (tree_of h c) \<and>
         scalar_of (tree_of h c) = scalar_operand h c \<and> scalar_flags_ok (tree_of h c)"
  proof
    fix c assume c: "c \<in> set ?kids"
    with kb have "kid_below a c" by simp
    then have "kid_below (length h) c" by (rule kid_below_mono) (use a in simp)
    moreover have "c \<in> set (filter (kid_below a) ?kids)" using c filt by simp
    ultimately show "reductions_in (tree_of h c) = red_of h c \<and> red_counts_ok (tree_of h c) \<and>
         scalar_of (tree_of h c) = scalar_operand h c \<and> scalar_flags_ok (tree_of h c)"
      using "2.IH"[of c] ok by simp
  qed
  have t: "tree_of h (Ref a) =
      Node (n_arg (h ! a)) (n_scalar (h ! a)) (n_red (h ! a)) (map (tree_of h) ?kids)"
    by (simp add: filt)
  have sums: "sum_list (map reductions_in (map (tree_of h) ?kids)) = sum_list (map (red_of h) ?kids)"
    unfolding map_map by (intro arg_cong[where f = sum_list] map_cong) (use ih in simp_all)
  have alls: "list_all scalar_of (map (tree_of h) ?kids) = list_all (scalar_operand h) ?kids"
    using ih by (simp add: list_all_iff)
  have r: "reductions_in (tree_of h (Ref a)) = n_red (h ! a)"
    unfolding t reductions_in.simps sums using n by (simp add: node_ok_def)
  have "red_counts_ok (tree_of h (Ref a))"
    using r ih unfolding t by (simp add: list_all_iff)
  moreover have "scalar_flags_ok (tree_of h (Ref a))"
    unfolding t scalar_flags_ok.simps alls using n ih by (simp add: node_ok_def list_all_iff)
  ultimately show ?case using r by (simp add: red_of_def scalar_operand_def)
qed

lemma node_ok_heap_ok: "\<forall>a < length h. node_ok h a \<Longrightarrow> heap_ok h"
  by (simp add: heap_ok_def node_ok_def)

text \<open>
  Claim C8, as amended. In the tree returned by \<open>_build_tree\<close> the reduction count of
  every operation node is the number of reduction operations in its subtree, the node
  itself included when it is a reduction (\<open>reds = 1\<close> plus the count of the operand).
\<close>

theorem build_tree_red_counts:
  assumes "build_tree targs = Inr (h, rt)"
  shows "heap_ok h \<and> red_counts_ok (tree_of h rt)"
proof -
  from build_tree_inv[OF assms] have ok: "\<forall>a < length h. node_ok h a"
    and rt: "kid_below (length h) rt" by simp_all
  from tree_of_annotations[OF ok rt] node_ok_heap_ok[OF ok] show ?thesis by simp
qed

definition red_example :: "type_arg list" where
  "red_example =
     [TensorArg 0 ''f4'' 0, TensorArg 1 ''f4'' 0, OpArg ''sum'' 0 NoExtra, FloatArg 2,
      OpArg ''mul'' 1 NoExtra, OpArg ''assign'' 2 (Rounding False 32)]"

lemma build_tree_red_example:
  "build_tree red_example =
     Inr ([\<lparr>n_arg = OpArg ''sum'' 0 NoExtra, n_scalar = True, n_red = 1,
             n_kids = [Arg (TensorArg 1 ''f4'' 0)]\<rparr>,
           \<lparr>n_arg = OpArg ''mul'' 1 NoExtra, n_scalar = True, n_red = 1,
             n_kids = [Ref 0, Arg (FloatArg 2)]\<rparr>,
           \<lparr>n_arg = OpArg ''assign'' 2 (Rounding False 32), n_scalar = True, n_red = 1,
             n_kids = [Arg (TensorArg 0 ''f4'' 0), Ref 1]\<rparr>], Ref 2)"
  by (simp add: red_example_def build_tree_def build_step_def float_ops_def reduction_ops_def
      add_operand_def numeral_2_eq_2)

theorem build_tree_red_counts_witness:
  "\<exists>h rt. build_tree red_example = Inr (h, rt) \<and> heap_ok h \<and> red_counts_ok (tree_of h rt)"
  using build_tree_red_counts[OF build_tree_red_example] build_tree_red_example by blast

text \<open>
  The claim as stated counts the reductions strictly beneath a node. For \<open>sum(A)\<close> the
  reduction node has count 1 and no reduction beneath it.
\<close>

theorem red_count_counterexample:
  "\<exists>h a. build_tree [TensorArg 1 ''f4'' 0, OpArg ''sum'' 0 NoExtra] = Inr (h, Ref a) \<and>
          n_red (h ! a) = 1 \<and> reductions_beneath (tree_of h (Ref a)) = 0"
proof -
  have "build_tree [TensorArg 1 ''f4'' 0, OpArg ''sum'' 0 NoExtra] =
     Inr ([\<lparr>n_arg = OpArg ''sum'' 0 NoExtra, n_scalar = True, n_red = 1,
             n_kids = [Arg (TensorArg 1 ''f4'' 0)]\<rparr>], Ref 0)"
    by (simp add: build_tree_def build_step_def float_ops_def reduction_ops_def)
  moreover have "reductions_beneath (tree_of
      [\<lparr>n_arg = OpArg ''sum'' 0 NoExtra, n_scalar = True, n_red = 1,
             n_kids = [Arg (TensorArg 1 ''f4'' 0)]\<rparr>] (Ref 0)) = 0"
    by (simp add: kid_below_def)
  ultimately show ?thesis by fastforce
qed

text \<open>
  Claim C9, as amended. In the tree returned by \<open>_build_tree\<close> the scalar flag of an
  elementwise operation node that has operands is the conjunction of the scalar-ness of
  its children, where a tensor leaf is scalar only in argument slot 0 and a constant leaf
  is scalar; an elementwise operation without operands (\<open>rand\<close>, \<open>onehot\<close>) is not scalar;
  a reduction node is scalar.
\<close>

theorem build_tree_scalar_flags:
  assumes "build_tree targs = Inr (h, rt)"
  shows "heap_ok h \<and> scalar_flags_ok (tree_of h rt)"
proof -
  from build_tree_inv[OF assms] have ok: "\<forall>a < length h. node_ok h a"
    and rt: "kid_below (length h) rt" by simp_all
  from tree_of_annotations[OF ok rt] node_ok_heap_ok[OF ok] show ?thesis by simp
qed

theorem build_tree_scalar_flags_witness:
  "\<exists>h rt. build_tree red_example = Inr (h, rt) \<and> heap_ok h \<and> scalar_flags_ok (tree_of h rt)"
  using build_tree_scalar_flags[OF build_tree_red_example] build_tree_red_example by blast

text \<open>
  The claim as stated makes an elementwise operation without operands scalar. The node of
  \<open>rand\<close> has no children and is not scalar (\<open>numops > 0\<close> is false).
\<close>

theorem zero_arity_scalar_counterexample:
  "\<exists>h a. build_tree [OpArg ''rand'' 0 NoExtra] = Inr (h, Ref a) \<and>
          n_kids (h ! a) = [] \<and>
          n_scalar (h ! a) \<noteq> list_all scalar_of (map (tree_of h) (n_kids (h ! a)))"
proof -
  have "build_tree [OpArg ''rand'' 0 NoExtra] =
     Inr ([\<lparr>n_arg = OpArg ''rand'' 0 NoExtra, n_scalar = False, n_red = 0, n_kids = []\<rparr>], Ref 0)"
    by (simp add: build_tree_def build_step_def float_ops_def)
  then show ?thesis by fastforce
qed

subsection \<open>The classification scan\<close>

text \<open>The axis values of the reduction descriptors of a stream, in order.\<close>

fun red_axes :: "py_arg list \<Rightarrow> int option list" where
  "red_axes [] = []"
| "red_axes (OpDict name ax ix # as) =
     (if name \<in> set reduction_ops then [ax] else []) @ red_axes as"
| "red_axes (a # as) = red_axes as"

definition inconsistent_axes :: "py_arg list \<Rightarrow> bool" where
  "inconsistent_axes args \<longleftrightarrow>
     (\<exists>ax \<in> set (red_axes args). ax \<noteq> Some 0 \<and> ax \<noteq> Some 1) \<or>
     (\<exists>a \<in> set (red_axes args). \<exists>b \<in> set (red_axes args). a \<noteq> b)"

definition axis_error :: "error \<Rightarrow> bool" where
  "axis_error e \<longleftrightarrow> e = ValueError_axis \<or> e = ValueError_one_axis"

lemma classify_not_reduction:
  assumes "red_axes [a] = []"
  shows "\<exists>f'. classify a f = Inr f' \<and> reduction f' = reduction f \<and> axis f' = axis f"
  using assms by (cases a) (auto split: if_splits)

lemma classify_reduction:
  assumes "red_axes [a] = [ax]"
  shows "classify a f =
     (if ax \<noteq> Some 0 \<and> ax \<noteq> Some 1 then Inl ValueError_axis
      else if reduction f then (if the ax \<noteq> axis f then Inl ValueError_one_axis
                                else Inr (if (case a of OpDict name x y \<Rightarrow> take 3 name = ''arg'' | _ \<Rightarrow> False)
                                          then f\<lparr>argminmax := True\<rparr> else f))
      else Inr ((if (case a of OpDict name x y \<Rightarrow> take 3 name = ''arg'' | _ \<Rightarrow> False)
                 then f\<lparr>argminmax := True\<rparr> else f)\<lparr>reduction := True, axis := the ax\<rparr>))"
  using assms by (cases a) (auto split: if_splits simp: Let_def)

lemma red_axes_head: "red_axes (a # as) = red_axes [a] @ red_axes as"
  by (cases a) simp_all

lemma red_axes_single: "red_axes [a] = [] \<or> (\<exists>ax. red_axes [a] = [ax])"
  by (cases a) simp_all

lemma classify_all_differs:
  "reduction f \<Longrightarrow> \<exists>ax \<in> set (red_axes args). ax \<noteq> Some (axis f) \<Longrightarrow>
   \<exists>e. classify_all args f = Inl e \<and> axis_error e"
proof (induction args arbitrary: f)
  case Nil
  then show ?case by simp
next
  case (Cons a as)
  from red_axes_single[of a] show ?case
  proof
    assume n: "red_axes [a] = []"
    from classify_not_reduction[OF n, of f] obtain f' where
      f': "classify a f = Inr f'" "reduction f' = reduction f" "axis f' = axis f" by blast
    from Cons.prems(2) n have "\<exists>ax \<in> set (red_axes as). ax \<noteq> Some (axis f')"
      by (simp add: red_axes_head[of a as] f'(3))
    with Cons.IH[of f'] Cons.prems(1) f' show ?thesis by simp
  next
    assume "\<exists>ax. red_axes [a] = [ax]"
    then obtain ax where ax: "red_axes [a] = [ax]" ..
    note c = classify_reduction[OF ax, of f]
    show ?thesis
    proof (cases "ax = Some (axis f)")
      case False
      then have "classify a f = Inl ValueError_axis \<or> classify a f = Inl ValueError_one_axis"
        unfolding c using Cons.prems(1) by auto
      then show ?thesis by (auto simp: axis_error_def)
    next
      case True
      show ?thesis
      proof (cases "ax \<noteq> Some 0 \<and> ax \<noteq> Some 1")
        case True
        then show ?thesis unfolding classify_all.simps c by (simp add: axis_error_def)
      next
        case False
        with True Cons.prems(1) obtain f' where
          f': "classify a f = Inr f'" "reduction f'" "axis f' = axis f"
          unfolding c by (auto split: if_splits)
        from Cons.prems(2) ax True have "\<exists>ax \<in> set (red_axes as). ax \<noteq> Some (axis f')"
          by (simp add: red_axes_head[of a as] f'(3))
        with Cons.IH[of f'] f' show ?thesis by simp
      qed
    qed
  qed
qed

lemma classify_all_inconsistent:
  "\<not> reduction f \<Longrightarrow> inconsistent_axes args \<Longrightarrow>
   \<exists>e. classify_all args f = Inl e \<and> axis_error e"
proof (induction args arbitrary: f)
  case Nil
  then show ?case by (simp add: inconsistent_axes_def)
next
  case (Cons a as)
  from red_axes_single[of a] show ?case
  proof
    assume n: "red_axes [a] = []"
    from classify_not_reduction[OF n, of f] obtain f' where
      f': "classify a f = Inr f'" "reduction f' = reduction f" "axis f' = axis f" by blast
    from Cons.prems(2) n have "inconsistent_axes as"
      by (simp add: inconsistent_axes_def red_axes_head[of a as])
    with Cons.IH[of f'] Cons.prems(1) f' show ?thesis by simp
  next
    assume "\<exists>ax. red_axes [a] = [ax]"
    then obtain ax where ax: "red_axes [a] = [ax]" ..
    note c = classify_reduction[OF ax, of f]
    show ?thesis
    proof (cases "ax \<noteq> Some 0 \<and> ax \<noteq> Some 1")
      case True
      then show ?thesis unfolding classify_all.simps c by (simp add: axis_error_def)
    next
      case False
      with Cons.prems(1) obtain f' where
        f': "classify a f = Inr f'" "reduction f'" "axis f' = the ax"
        unfolding c by (auto split: if_splits)
      from False have s: "ax = Some (the ax)" by auto
      have "\<exists>b \<in> set (red_axes as). b \<noteq> ax"
      proof -
        from Cons.prems(2) have
          "(\<exists>x \<in> set (ax # red_axes as). x \<noteq> Some 0 \<and> x \<noteq> Some 1) \<or>
           (\<exists>x \<in> set (ax # red_axes as). \<exists>y \<in> set (ax # red_axes as). x \<noteq> y)"
          by (simp add: inconsistent_axes_def red_axes_head[of a as] ax)
        then show ?thesis
        proof
          assume "\<exists>x \<in> set (ax # red_axes as). x \<noteq> Some 0 \<and> x \<noteq> Some 1"
          then obtain x where x: "x \<in> set (ax # red_axes as)" "x \<noteq> Some 0 \<and> x \<noteq> Some 1" by blast
          with False have "x \<noteq> ax" by auto
          with x(1) show ?thesis by auto
        next
          assume "\<exists>x \<in> set (ax # red_axes as). \<exists>y \<in> set (ax # red_axes as). x \<noteq> y"
          then obtain x y where xy: "x \<in> set (ax # red_axes as)" "y \<in> set (ax # red_axes as)" "x \<noteq> y"
            by blast
          then have "x \<noteq> ax \<or> y \<noteq> ax" by auto
          with xy(1,2) show ?thesis by auto
        qed
      qed
      then have "\<exists>b \<in> set (red_axes as). b \<noteq> Some (axis f')" using s f'(3) by simp
      from classify_all_differs[OF f'(2) this] f'(1) show ?thesis by simp
    qed
  qed
qed

text \<open>
  Claim C7. A stream with two reduction descriptors of different axis values, or with a
  reduction descriptor whose axis is not 0 or 1, makes \<open>call_compound_kernel\<close> raise a
  ValueError in the first loop: the call ends with the cache of kernels unchanged and no
  launch.
\<close>

theorem inconsistent_axes_raise:
  assumes "inconsistent_axes args"
  shows "\<exists>e. axis_error e \<and> classify_all args init_flags = Inl e \<and>
             call_compound_kernel cs SourceModule dev rand_state args = Some (Inl e, dev)"
proof -
  have "\<not> reduction init_flags" by (simp add: init_flags_def)
  from classify_all_inconsistent[OF this assms] obtain e where
    e: "classify_all args init_flags = Inl e" "axis_error e" by blast
  then have "call_compound_kernel cs SourceModule dev rand_state args = Some (Inl e, dev)"
    by (simp add: call_compound_kernel_def prepare_call_def)
  with e show ?thesis by blast
qed

text \<open>Tensors and parameters for the examples: a contiguous \<open>r \<times> c\<close> tensor of 32-bit floats.\<close>

definition dense :: "nat \<Rightarrow> int \<Rightarrow> int \<Rightarrow> GPUTensor" where
  "dense i r c =
     \<lparr>ident = i, shape = [r, c], strides = [c, 1], dtype = ''f4'', gpudata = 1000 + i,
      take_array = None, is_trans = False, is_contiguous = True, tensor_size = r * c,
      rounding = RInt 0, bench = 0\<rparr>"

definition row_major :: "int \<times> int \<Rightarrow> int \<times> int" where
  "row_major = (\<lambda>(r, c). (c, 1))"

definition no_kernels :: device where
  "no_kernels = \<lparr>cache = Map.empty, compiled = 0\<rparr>"

definition two_axes_example :: "py_arg list" where
  "two_axes_example =
     [Tensor (dense 0 1 1), Tensor (dense 1 3 4), OpDict ''sum'' (Some 0) None,
      OpDict ''sum'' (Some 1) None, OpDict ''assign'' None None]"

theorem inconsistent_axes_raise_witness:
  "inconsistent_axes two_axes_example \<and>
   call_compound_kernel row_major (\<lambda>t. True) no_kernels (Ptr 0) two_axes_example
     = Some (Inl ValueError_one_axis, no_kernels)"
proof -
  have "red_axes two_axes_example = [Some 0, Some 1]"
    by (simp add: two_axes_example_def reduction_ops_def)
  then have i: "inconsistent_axes two_axes_example"
    by (auto simp: inconsistent_axes_def)
  from inconsistent_axes_raise[OF i, of row_major "\<lambda>t. True" no_kernels "Ptr 0"] obtain e where
    e: "classify_all two_axes_example init_flags = Inl e"
      "call_compound_kernel row_major (\<lambda>t. True) no_kernels (Ptr 0) two_axes_example
         = Some (Inl e, no_kernels)" by blast
  have "classify_all two_axes_example init_flags = Inl ValueError_one_axis"
    by (simp add: two_axes_example_def init_flags_def dense_def reduction_ops_def)
  with e i show ?thesis by simp
qed

subsection \<open>The thread count\<close>

fun argminmax_op :: "py_arg \<Rightarrow> bool" where
  "argminmax_op (OpDict name ax ix) = (name = ''argmax'' \<or> name = ''argmin'')"
| "argminmax_op a = False"

definition has_argminmax :: "py_arg list \<Rightarrow> bool" where
  "has_argminmax args \<longleftrightarrow> (\<exists>a \<in> set args. argminmax_op a)"

definition assign_free :: "py_arg list \<Rightarrow> bool" where
  "assign_free args \<longleftrightarrow> (\<forall>ax ix. OpDict ''assign'' ax ix \<notin> set args)"

definition thread_steps :: "int \<Rightarrow> int" where
  "thread_steps depth =
     (if 4096 \<le> depth then 1024 else if 2048 \<le> depth then 512 else if 1024 \<le> depth then 256
      else if 512 \<le> depth then 128 else if 256 \<le> depth then 64 else 32)"

lemma marshal_all_append:
  "marshal_all cs f (xs @ ys) c =
     (case marshal_all cs f xs c of Inl e \<Rightarrow> Inl e | Inr c' \<Rightarrow> marshal_all cs f ys c')"
  by (induction xs arbitrary: c) (auto split: sum.splits)

lemma classify_all_append:
  "classify_all (xs @ ys) f =
     (case classify_all xs f of Inl e \<Rightarrow> Inl e | Inr f' \<Rightarrow> classify_all ys f')"
  by (induction xs arbitrary: f) (auto split: sum.splits)

lemma reduction_name_arg:
  "name \<in> set reduction_ops \<Longrightarrow> (take 3 name = ''arg'') = (name = ''argmax'' \<or> name = ''argmin'')"
  by (auto simp: reduction_ops_def)

lemma argminmax_is_reduction: "name = ''argmax'' \<or> name = ''argmin'' \<Longrightarrow> name \<in> set reduction_ops"
  by (auto simp: reduction_ops_def)

lemma classify_flags:
  assumes "classify a f = Inr f'"
  shows "reduction f' = (reduction f \<or> red_axes [a] \<noteq> []) \<and>
         argminmax f' = (argminmax f \<or> has_argminmax [a])"
proof (cases a)
  case (OpDict name ax ix)
  show ?thesis
  proof (cases "name \<in> set reduction_ops")
    case True
    with assms OpDict reduction_name_arg[OF True] show ?thesis
      by (auto simp: has_argminmax_def Let_def split: if_splits)
  next
    case False
    with argminmax_is_reduction[of name] have "\<not> (name = ''argmax'' \<or> name = ''argmin'')" by blast
    with assms OpDict False show ?thesis
      by (auto simp: has_argminmax_def split: if_splits)
  qed
next
  case (Tensor t)
  with assms show ?thesis by (auto simp: has_argminmax_def split: if_splits)
next
  case (Number x)
  with assms show ?thesis by (auto simp: has_argminmax_def)
next
  case Other
  with assms show ?thesis by (auto simp: has_argminmax_def)
qed

lemma has_argminmax_Cons: "has_argminmax (a # as) = (has_argminmax [a] \<or> has_argminmax as)"
  by (auto simp: has_argminmax_def)

lemma classify_all_flags:
  "classify_all args f = Inr f' \<Longrightarrow>
   reduction f' = (reduction f \<or> red_axes args \<noteq> []) \<and>
   argminmax f' = (argminmax f \<or> has_argminmax args)"
proof (induction args arbitrary: f)
  case Nil
  then show ?case by (simp add: has_argminmax_def)
next
  case (Cons a as)
  from Cons.prems obtain f1 where f1: "classify a f = Inr f1" "classify_all as f1 = Inr f'"
    by (auto split: sum.splits)
  from classify_flags[OF f1(1)] Cons.IH[OF f1(2)] show ?case
    by (simp add: red_axes_head[of a as] has_argminmax_Cons[of a as])
qed

lemma new_tensor_threads:
  "new_tensor f t shp strd c = Inr (indx, c') \<Longrightarrow> threads c' = threads c"
  by (auto simp: new_tensor_def Let_def split: sum.splits if_splits)

lemma marshal_threads:
  assumes "marshal cs f a c = Inr c'" and "assign_free [a]"
  shows "threads c' = threads c"
proof (cases a)
  case (Tensor t)
  with assms(1) obtain shp strd indx c1 where
    c1: "(case tensor_ids c (ident t) of Some indx \<Rightarrow> Inr (indx, c)
          | None \<Rightarrow> new_tensor f t shp strd c) = Inr (indx, c1)"
    and c': "threads c' = threads c1"
    by (auto simp: do_tensor_def Let_def split: sum.splits)
  from c1 have "threads c1 = threads c"
    by (cases "tensor_ids c (ident t)") (auto dest: new_tensor_threads)
  with c' show ?thesis by simp
next
  case (Number x)
  with assms(1) show ?thesis by (auto simp: do_number_def Let_def split: option.splits)
next
  case (OpDict name ax ix)
  with assms(2) have na: "name \<noteq> ''assign''" by (auto simp: assign_free_def)
  with assms(1) OpDict show ?thesis
    by (auto simp: do_float_op_def do_reduction_def Let_def
             split: sum.splits option.splits if_splits list.splits)
next
  case Other
  with assms(1) show ?thesis by simp
qed

lemma assign_free_Cons: "assign_free (a # as) = (assign_free [a] \<and> assign_free as)"
  by (auto simp: assign_free_def)

lemma marshal_all_threads:
  "marshal_all cs f args c = Inr c' \<Longrightarrow> assign_free args \<Longrightarrow> threads c' = threads c"
proof (induction args arbitrary: c)
  case Nil
  then show ?case by simp
next
  case (Cons a as)
  from Cons.prems(1) obtain c1 where c1: "marshal cs f a c = Inr c1" "marshal_all cs f as c1 = Inr c'"
    by (auto split: sum.splits)
  from Cons.prems(2) have af: "assign_free [a]" "assign_free as"
    using assign_free_Cons[of a as] by simp_all
  from marshal_threads[OF c1(1) af(1)] Cons.IH[OF c1(2) af(2)] show ?case by simp
qed

lemma marshal_assign:
  assumes "marshal cs f (OpDict ''assign'' ax ix) c = Inr c'"
  shows "\<exists>ms n b. max_shape c' = Some ms \<and> red_depth c' = red_depth c \<and>
           threads c' = select_threads f (red_depth c) ms (threads c) \<and>
           type_args c' = type_args c @ [OpArg ''assign'' n (Rounding b (threads c'))]"
  using assms
  by (auto simp: float_ops_def do_float_op_def do_assign_def Let_def
           split: sum.splits option.splits prod.splits)

text \<open>
  Claim C5, as amended. In an invocation whose only \<open>assign\<close> is its last argument, the
  thread count (the one stored in the signature) is chosen by the fixed steps from
  \<open>red_depth\<close> when the stream has a reduction and no \<open>argmax\<close> or \<open>argmin\<close>; it is 256 when
  the stream has no reduction, the driver saw no transpose and the unified shape at
  \<open>assign\<close> has a second extent of 512 or more; it is 32 otherwise, in particular for
  every stream with an \<open>argmax\<close> or \<open>argmin\<close>.
\<close>

theorem thread_count:
  assumes "prepare_call cs rand_state (pre @ [OpDict ''assign'' ax ix]) = Inr (f, c)"
    and "assign_free pre"
  shows "threads c =
           (if red_axes pre \<noteq> [] \<and> \<not> has_argminmax pre then thread_steps (red_depth c)
            else if red_axes pre = [] \<and> \<not> transpose_flag f \<and>
                    (\<exists>ms. max_shape c = Some ms \<and> 512 \<le> snd ms) then 256
            else 32) \<and>
         (\<exists>n b. last (type_args c) = OpArg ''assign'' n (Rounding b (threads c)))"
proof -
  let ?args = "pre @ [OpDict ''assign'' ax ix]"
  from assms(1) have cl: "classify_all ?args init_flags = Inr f"
    and m: "marshal_all cs f ?args (init_call rand_state) = Inr c"
    by (auto simp: prepare_call_def split: sum.splits)
  from m obtain c1 where c1: "marshal_all cs f pre (init_call rand_state) = Inr c1"
    and last: "marshal cs f (OpDict ''assign'' ax ix) c1 = Inr c"
    by (auto simp: marshal_all_append split: sum.splits)
  from marshal_all_threads[OF c1 assms(2)] have t1: "threads c1 = 32" by (simp add: init_call_def)
  from marshal_assign[OF last] obtain ms n b where
    a: "max_shape c = Some ms" "red_depth c = red_depth c1"
       "threads c = select_threads f (red_depth c1) ms (threads c1)"
       "type_args c = type_args c1 @ [OpArg ''assign'' n (Rounding b (threads c))]" by blast
  have ra: "red_axes ?args = red_axes pre"
    by (induction pre rule: red_axes.induct) (simp_all add: reduction_ops_def)
  have am: "has_argminmax ?args = has_argminmax pre" by (simp add: has_argminmax_def)
  from classify_all_flags[OF cl] have fl: "reduction f = (red_axes pre \<noteq> [])"
    "argminmax f = has_argminmax pre"
    by (simp_all add: init_flags_def ra am)
  have "threads c =
           (if red_axes pre \<noteq> [] \<and> \<not> has_argminmax pre then thread_steps (red_depth c)
            else if red_axes pre = [] \<and> \<not> transpose_flag f \<and>
                    (\<exists>ms. max_shape c = Some ms \<and> 512 \<le> snd ms) then 256
            else 32)"
    unfolding a(3) t1 a(1) a(2) select_threads_def thread_steps_def fl by simp
  moreover from a(4) have "\<exists>n b. last (type_args c) = OpArg ''assign'' n (Rounding b (threads c))"
    by simp
  ultimately show ?thesis by simp
qed


definition deep_sum_example :: "py_arg list" where
  "deep_sum_example =
     [Tensor (dense 0 3 1), Tensor (dense 1 3 4096), OpDict ''sum'' (Some 1) None]"

definition deep_argmax_example :: "py_arg list" where
  "deep_argmax_example =
     [Tensor (dense 0 3 1), Tensor (dense 1 3 4096), OpDict ''argmax'' (Some 1) None]"

lemmas call_eval =
  prepare_call_def init_flags_def init_call_def dense_def row_major_def reduction_ops_def
  float_ops_def do_tensor_def tensor_dims_def new_tensor_def do_number_def do_float_op_def
  do_assign_def do_reduction_def rounding_bits_def select_threads_def at_axis_def set_axis_def
  py_set_def py_get_def py_index_def unify_shape_def unify_axis_def Let_def numeral_2_eq_2

theorem thread_count_witness:
  "\<exists>f c. prepare_call row_major (Ptr 0) (deep_sum_example @ [OpDict ''assign'' None None])
            = Inr (f, c) \<and>
          assign_free deep_sum_example \<and> red_depth c = 4096 \<and> threads c = 1024"
proof -
  have "\<exists>f c. prepare_call row_major (Ptr 0) (deep_sum_example @ [OpDict ''assign'' None None])
            = Inr (f, c) \<and> red_depth c = 4096"
    by (simp add: deep_sum_example_def call_eval)
  then obtain f c where
    p: "prepare_call row_major (Ptr 0) (deep_sum_example @ [OpDict ''assign'' None None]) = Inr (f, c)"
    and d: "red_depth c = 4096" by blast
  have af: "assign_free deep_sum_example"
    by (simp add: assign_free_def deep_sum_example_def)
  have "red_axes deep_sum_example \<noteq> []" "\<not> has_argminmax deep_sum_example"
    by (simp_all add: deep_sum_example_def has_argminmax_def reduction_ops_def)
  with thread_count[OF p af] d have "threads c = 1024" by (simp add: thread_steps_def)
  with p af d show ?thesis by blast
qed

text \<open>
  The claim as stated takes the steps for every invocation with a reduction. An
  \<open>argmax\<close> over an axis of extent 4096 keeps 32 threads (\<open>reduction and not argminmax\<close>).
\<close>

theorem argmax_threads_counterexample:
  "\<exists>f c. prepare_call row_major (Ptr 0) (deep_argmax_example @ [OpDict ''assign'' None None])
            = Inr (f, c) \<and>
          red_axes deep_argmax_example \<noteq> [] \<and> red_depth c = 4096 \<and> threads c = 32"
  by (simp add: deep_argmax_example_def call_eval)

subsection \<open>Shape compatibility\<close>

text \<open>
  Two shapes are incompatible when they differ on an axis on which neither has extent 1.
  Compatible shapes unify to the shape that takes, on each axis, the other extent where
  one extent is 1.
\<close>

definition incompatible :: "int \<times> int \<Rightarrow> int \<times> int \<Rightarrow> bool" where
  "incompatible s1 s2 \<longleftrightarrow>
     (fst s1 \<noteq> fst s2 \<and> fst s1 \<noteq> 1 \<and> fst s2 \<noteq> 1) \<or>
     (snd s1 \<noteq> snd s2 \<and> snd s1 \<noteq> 1 \<and> snd s2 \<noteq> 1)"

definition broadcast_extent :: "int \<Rightarrow> int \<Rightarrow> int" where
  "broadcast_extent a b = (if a = 1 then b else a)"

definition broadcast_shape :: "int \<times> int \<Rightarrow> int \<times> int \<Rightarrow> int \<times> int" where
  "broadcast_shape s1 s2 = (broadcast_extent (fst s1) (fst s2), broadcast_extent (snd s1) (snd s2))"

definition positive_shape :: "int \<times> int \<Rightarrow> bool" where
  "positive_shape s \<longleftrightarrow> 1 \<le> fst s \<and> 1 \<le> snd s"

lemma unify_first: "positive_shape s \<Longrightarrow> unify_shape s (1, 1) = Inr s"
  by (cases s) (auto simp: unify_shape_def unify_axis_def positive_shape_def)

lemma unify_axis_second:
  "1 \<le> m \<Longrightarrow> 1 \<le> s \<Longrightarrow>
   unify_axis s m = (if s \<noteq> m \<and> s \<noteq> 1 \<and> m \<noteq> 1 then None else Some (broadcast_extent m s))"
  by (auto simp: unify_axis_def broadcast_extent_def)

lemma unify_second:
  assumes "positive_shape s1" and "positive_shape s2"
  shows "unify_shape s2 s1 =
           (if incompatible s1 s2 then Inl (TypeError_shape s2) else Inr (broadcast_shape s1 s2))"
proof -
  from assms have p: "1 \<le> fst s1" "1 \<le> snd s1" "1 \<le> fst s2" "1 \<le> snd s2"
    by (simp_all add: positive_shape_def)
  show ?thesis
    unfolding unify_shape_def unify_axis_second[OF p(1) p(3)] unify_axis_second[OF p(2) p(4)]
    by (auto simp: incompatible_def broadcast_shape_def)
qed

lemma pop_two_shapes:
  assumes "positive_shape s1" and "positive_shape s2"
  shows "pop_shapes 2 (s1 # s2 # rest) (1, 1) =
           (if incompatible s1 s2 then Inl (TypeError_shape s2)
            else Inr (broadcast_shape s1 s2, rest))"
  using unify_first[OF assms(1)] unify_second[OF assms]
  by (simp add: numeral_2_eq_2)

lemma marshal_incompatible:
  assumes "float_ops name = Some 2" and "shape_stack c = s1 # s2 # rest"
    and "positive_shape s1" and "positive_shape s2" and "incompatible s1 s2"
  shows "marshal cs f (OpDict name ax ix) c = Inl (TypeError_shape s2)"
  using assms pop_two_shapes[OF assms(3,4), of rest]
  by (simp add: do_float_op_def)

text \<open>
  Claim C3, as amended. The shapes that are unified are the ones the driver puts on its
  shape stack: the native 2-D shape of a tensor in an invocation with a broadcast,
  reduction, transpose, gather or non-contiguous operand, and the synthetic decomposition
  of its element count otherwise. When a binary elementwise operation finds there two
  operand shapes of positive extents that differ on an axis on which neither is 1, the call
  raises the shape-compatibility TypeError with the kernel cache unchanged and nothing
  launched; otherwise the two shapes unify to the shape that takes the other extent where
  one is 1 and the common extent where they are equal.
\<close>

theorem shape_compatibility:
  assumes "classify_all (pre @ OpDict name ax ix # post) init_flags = Inr f"
    and "marshal_all cs f pre (init_call rand_state) = Inr c"
    and "float_ops name = Some 2"
    and "shape_stack c = s1 # s2 # rest"
    and "positive_shape s1" and "positive_shape s2"
  shows "(incompatible s1 s2 \<longrightarrow>
            call_compound_kernel cs SourceModule dev rand_state (pre @ OpDict name ax ix # post)
              = Some (Inl (TypeError_shape s2), dev)) \<and>
         (\<not> incompatible s1 s2 \<longrightarrow>
            pop_shapes 2 (shape_stack c) (1, 1) = Inr (broadcast_shape s1 s2, rest))"
proof (intro conjI impI)
  assume i: "incompatible s1 s2"
  have "marshal cs f (OpDict name ax ix) c = Inl (TypeError_shape s2)"
    using assms(3-6) i by (rule marshal_incompatible)
  then have "marshal_all cs f (pre @ OpDict name ax ix # post) (init_call rand_state)
      = Inl (TypeError_shape s2)"
    using assms(2) by (simp add: marshal_all_append)
  then have "prepare_call cs rand_state (pre @ OpDict name ax ix # post) = Inl (TypeError_shape s2)"
    using assms(1) by (simp add: prepare_call_def)
  then show "call_compound_kernel cs SourceModule dev rand_state (pre @ OpDict name ax ix # post)
              = Some (Inl (TypeError_shape s2), dev)"
    by (simp add: call_compound_kernel_def)
next
  assume "\<not> incompatible s1 s2"
  then show "pop_shapes 2 (shape_stack c) (1, 1) = Inr (broadcast_shape s1 s2, rest)"
    using pop_two_shapes[OF assms(5,6), of rest] assms(4) by simp
qed

definition mismatch_example :: "py_arg list" where
  "mismatch_example =
     [Tensor (dense 0 3 4), Tensor (dense 1 3 4),
      Tensor ((dense 2 3 5)\<lparr>is_contiguous := False\<rparr>)]"

theorem shape_compatibility_witness:
  "\<exists>f c. classify_all (mismatch_example @ OpDict ''add'' None None # [OpDict ''assign'' None None])
            init_flags = Inr f \<and>
          marshal_all row_major f mismatch_example (init_call (Ptr 0)) = Inr c \<and>
          shape_stack c = (3, 5) # (3, 4) # [(3, 4)] \<and>
          incompatible (3, 5) (3, 4) \<and>
          call_compound_kernel row_major (\<lambda>t. True) no_kernels (Ptr 0)
            (mismatch_example @ OpDict ''add'' None None # [OpDict ''assign'' None None])
            = Some (Inl (TypeError_shape (3, 4)), no_kernels)"
proof -
  have "\<exists>f c. classify_all (mismatch_example @ OpDict ''add'' None None # [OpDict ''assign'' None None])
            init_flags = Inr f \<and>
          marshal_all row_major f mismatch_example (init_call (Ptr 0)) = Inr c \<and>
          shape_stack c = (3, 5) # (3, 4) # [(3, 4)]"
    by (simp add: mismatch_example_def call_eval)
  then obtain f c where
    h: "classify_all (mismatch_example @ OpDict ''add'' None None # [OpDict ''assign'' None None])
            init_flags = Inr f"
       "marshal_all row_major f mismatch_example (init_call (Ptr 0)) = Inr c"
       "shape_stack c = (3, 5) # (3, 4) # [(3, 4)]" by blast
  have a: "float_ops ''add'' = Some 2" by (simp add: float_ops_def)
  have p: "positive_shape (3, 5)" "positive_shape (3, 4)" by (simp_all add: positive_shape_def)
  have i: "incompatible (3, 5) (3, 4)" by (simp add: incompatible_def)
  from shape_compatibility[OF h(1) h(2) a h(3) p, of "\<lambda>t. True" no_kernels] i h
  show ?thesis by blast
qed


text \<open>
  The claim as stated fails for a plain elementwise invocation: contiguous operands of
  shapes (3,4) and (4,3) differ on both axes with no extent 1, but both are read as the
  same synthetic shape of their 12 elements, and the call builds and launches a kernel.
\<close>

definition reshaped_example :: "py_arg list" where
  "reshaped_example =
     [Tensor (dense 0 3 4), Tensor (dense 1 3 4), Tensor (dense 2 4 3),
      OpDict ''add'' None None, OpDict ''assign'' None None]"

theorem plain_elementwise_counterexample:
  "shape (dense 1 3 4) = [3, 4] \<and> shape (dense 2 4 3) = [4, 3] \<and>
   (case call_compound_kernel row_major (\<lambda>t. True) no_kernels (Ptr 0) reshaped_example of
      Some (Inr (t, launches), dev) \<Rightarrow> length launches = 1 \<and> compiled dev = 1
    | _ \<Rightarrow> False)"
  by code_simp

subsection \<open>Runtime arguments against the prepared signature\<close>

text \<open>An argument fits a character of the signature: a pointer \<open>P\<close>, an integer \<open>i\<close>, a float \<open>f\<close>.\<close>

fun fits :: "sig_char \<Rightarrow> kernel_arg \<Rightarrow> bool" where
  "fits Sig_P (Ptr p) = True"
| "fits Sig_i (IntArg n) = True"
| "fits Sig_f (FloatVal x) = True"
| "fits s a = False"

text \<open>
  \<open>C = sum(A * onehot(I1), axis=1) - sum(A * onehot(I2), axis=1)\<close>, with two different index
  tensors (device pointers 77 and 78).
\<close>

definition two_onehot_example :: "py_arg list" where
  "two_onehot_example =
     [Tensor (dense 0 3 1),
      Tensor (dense 1 3 4), OpDict ''onehot'' (Some 0) (Some 77), OpDict ''mul'' None None,
      OpDict ''sum'' (Some 1) None,
      Tensor (dense 1 3 4), OpDict ''onehot'' (Some 0) (Some 78), OpDict ''mul'' None None,
      OpDict ''sum'' (Some 1) None,
      OpDict ''sub'' None None, OpDict ''assign'' None None]"

text \<open>
  Claim C10 fails on this stream. The key of \<open>_process_node\<close> holds only the name of an
  \<open>onehot\<close> operation, so the second reduction is taken for a duplicate of the first and
  its \<open>onehot\<close> never reaches a stage: the argument list has the pointer of the second
  index tensor, the signature has no \<open>P\<close> for it, and from there on the two lists are out
  of step (12 arguments, 11 characters).
\<close>

theorem onehot_duplicate_misaligned:
  "(case call_compound_kernel row_major (\<lambda>t. True) no_kernels (Ptr 0) two_onehot_example of
      Some (Inr (t, [l]), dev) \<Rightarrow>
        launch_args l =
          [Ptr 0, Ptr 1000, IntArg 1, IntArg 0, Ptr 1001, IntArg 4, IntArg 1, Ptr 77, IntArg 4,
           Ptr 78, IntArg 4, IntArg 1] \<and>
        launch_sig l =
          [Sig_P, Sig_P, Sig_i, Sig_i, Sig_P, Sig_i, Sig_i, Sig_P, Sig_i, Sig_i, Sig_i] \<and>
        \<not> list_all2 fits (launch_sig l) (launch_args l)
    | _ \<Rightarrow> False)"
  by code_simp

subsection \<open>The cache key\<close>



































end
